theory Spec2Isabelle
  imports
    Main
    "HOL-Library.Char_ord"
    "HOL-Library.List_Lexorder"
    "HOL-Library.Product_Lexorder"
    "HOL-Library.Sublist"
begin

section \<open>The page tree of apostrophe-pages (index.js)\<close>

text \<open>
  Strings are byte lists (UTF-8), which is the unit MongoDB compares when it sorts;
  the separator \<open>/\<close> is ASCII, so splitting and prefix tests agree with JavaScript's.
  The numbers \<open>level\<close> and \<open>rank\<close> are integers, held in JavaScript numbers.
\<close>

subsection \<open>Data model\<close>

text \<open>
  A page document. \<open>typeData\<close> holds the properties other than the six fields and
  \<open>url\<close> that \<open>addSanitizedTypeData\<close> sets under the name of a page type; \<open>url\<close> is
  the property that the tree queries add to the pages they return (stored pages have
  none unless a page type is so named). The \<open>areas\<close> payload is never inspected by
  this module and is left out. Every page carries a path; the sparse index also admits
  documents without one, which take no part in the tree and are not modelled.
\<close>

record page =
  slug :: string
  path :: string
  level :: int
  rank :: int
  ptype :: string
  title :: string
  typeData :: "(string \<times> string) list"
  url :: "string option"

text \<open>
  Errors are values. The comments give the callback argument of the source.
\<close>

datatype error =
    BadParent            \<comment> \<open>'Bad parent'\<close>
  | BadPage              \<comment> \<open>'Bad page'\<close>
  | NotFound             \<comment> \<open>'Not Found'\<close>
  | HomeSlug             \<comment> \<open>'Cannot change the slug of the home page'\<close>
  | HomePage             \<comment> \<open>'Cannot remove home page'\<close>
  | HasChildren          \<comment> \<open>'Remove child pages first'\<close>
  | PermissionDenied     \<comment> \<open>the error of \<open>apos.permissions\<close>\<close>
  | SanitizeError        \<comment> \<open>the error of a type's \<open>sanitize\<close>\<close>
  | LoadError            \<comment> \<open>the error of a \<open>load\<close> or \<open>notfound\<close> callback\<close>
  | DuplicateKey         \<comment> \<open>a write refused by a unique index of the store\<close>
  | StoreError           \<comment> \<open>the error of a failed read of the store\<close>
  | TypeError            \<comment> \<open>thrown: a property read on \<open>undefined\<close>\<close>
  | ReferenceError       \<comment> \<open>thrown: a read of an identifier that was never declared\<close>

text \<open>
  A registered page type: its name and its optional \<open>settings.sanitize\<close>, which
  maps the submitted data to the cleaned data or fails.
\<close>

record pagetype =
  name :: string
  sanitize :: "(string \<Rightarrow> string option) option"

text \<open>The store: the pages collection in natural order, and the redirects.\<close>

record db =
  pages :: "page list"
  redirects :: "(string \<times> string) list"

subsection \<open>JavaScript string operations used by the module\<close>

text \<open>\<open>s.split('/')\<close>: never empty; \<open>''.split('/')\<close> is \<open>['']\<close>.\<close>

fun js_split :: "char \<Rightarrow> string \<Rightarrow> string list" where
  "js_split c [] = [[]]"
| "js_split c (x # xs) =
     (if x = c then [] # js_split c xs
      else (case js_split c xs of
              w # ws \<Rightarrow> (x # w) # ws
            | [] \<Rightarrow> [[x]]))"

text \<open>\<open>s.lastIndexOf(c)\<close>: the index of the last occurrence, or -1.\<close>

definition lastIndexOf :: "string \<Rightarrow> char \<Rightarrow> int" where
  "lastIndexOf s c =
     (if c \<in> set s
      then int (length s) - 1 - int (length (takeWhile (\<lambda>x. x \<noteq> c) (rev s)))
      else - 1)"

text \<open>\<open>s.substr(0, n)\<close>: a negative length gives the empty string.\<close>

definition substr0 :: "string \<Rightarrow> int \<Rightarrow> string" where
  "substr0 s n = take (nat n) s"

text \<open>
  \<open>s.trim()\<close> removes the white space and the line terminators of ECMAScript from
  both ends. In UTF-8 they are the byte sequences of \<open>js_white_space\<close>: TAB, LF, VT,
  FF, CR, SP, U+00A0, U+1680, U+2000 to U+200A, U+2028, U+2029, U+202F, U+205F, U+3000
  and U+FEFF.
\<close>

definition js_white_space :: "string list" where
  "js_white_space =
     [[CHR 0x09], [CHR 0x0A], [CHR 0x0B], [CHR 0x0C], [CHR 0x0D], [CHR 0x20],
      [CHR 0xC2, CHR 0xA0], [CHR 0xE1, CHR 0x9A, CHR 0x80],
      [CHR 0xE2, CHR 0x80, CHR 0x80], [CHR 0xE2, CHR 0x80, CHR 0x81],
      [CHR 0xE2, CHR 0x80, CHR 0x82], [CHR 0xE2, CHR 0x80, CHR 0x83],
      [CHR 0xE2, CHR 0x80, CHR 0x84], [CHR 0xE2, CHR 0x80, CHR 0x85],
      [CHR 0xE2, CHR 0x80, CHR 0x86], [CHR 0xE2, CHR 0x80, CHR 0x87],
      [CHR 0xE2, CHR 0x80, CHR 0x88], [CHR 0xE2, CHR 0x80, CHR 0x89],
      [CHR 0xE2, CHR 0x80, CHR 0x8A], [CHR 0xE2, CHR 0x80, CHR 0xA8],
      [CHR 0xE2, CHR 0x80, CHR 0xA9], [CHR 0xE2, CHR 0x80, CHR 0xAF],
      [CHR 0xE2, CHR 0x81, CHR 0x9F], [CHR 0xE3, CHR 0x80, CHR 0x80],
      [CHR 0xEF, CHR 0xBB, CHR 0xBF]]"

text \<open>The length of the first of the sequences \<open>ws\<close> that starts \<open>s\<close>, or 0.\<close>

definition white_prefix :: "string list \<Rightarrow> string \<Rightarrow> nat" where
  "white_prefix ws s = (case find (\<lambda>w. prefix w s) ws of Some w \<Rightarrow> length w | None \<Rightarrow> 0)"

function strip_white :: "string list \<Rightarrow> string \<Rightarrow> string" where
  "strip_white ws s =
     (if white_prefix ws s = 0 then s else strip_white ws (drop (white_prefix ws s) s))"
  by pat_completeness auto
termination
proof (relation "measure (\<lambda>(ws, s). length s)")
  show "wf (measure (\<lambda>(ws, s). length s))" by simp
next
  fix ws :: "string list" and s :: string
  assume a: "white_prefix ws s \<noteq> 0"
  then obtain w where w: "find (\<lambda>w. prefix w s) ws = Some w" "white_prefix ws s = length w"
    by (auto simp add: white_prefix_def split: option.splits)
  from w(1) have "prefix w s" by (metis find_Some_iff)
  then have "length w \<le> length s" by (rule prefix_length_le)
  moreover from a w(2) have "0 < length w" by simp
  ultimately have "length s - length w < length s" by arith
  with w(2) show "((ws, drop (white_prefix ws s) s), (ws, s)) \<in> measure (\<lambda>(ws, s). length s)"
    by simp
qed

declare strip_white.simps [simp del]

definition trim :: "string \<Rightarrow> string" where
  "trim s = rev (strip_white (map rev js_white_space) (rev (strip_white js_white_space s)))"

text \<open>\<open>s.replace('//', '/')\<close>: a string pattern replaces the first occurrence only.\<close>

fun replace_first_slashes :: "string \<Rightarrow> string" where
  "replace_first_slashes (x # y # xs) =
     (if x = CHR ''/'' \<and> y = CHR ''/'' then CHR ''/'' # xs
      else x # replace_first_slashes (y # xs))"
| "replace_first_slashes xs = xs"

text \<open>\<open>s.replace(/\/+/g, '/')\<close>: every run of slashes becomes one slash.\<close>

fun collapse_slashes :: "string \<Rightarrow> string" where
  "collapse_slashes (x # y # xs) =
     (if x = CHR ''/'' \<and> y = CHR ''/'' then collapse_slashes (y # xs)
      else x # collapse_slashes (y # xs))"
| "collapse_slashes xs = xs"

text \<open>\<open>s.replace(/\/$/, '')\<close>: one slash at the very end is removed.\<close>

definition strip_trailing_slash :: "string \<Rightarrow> string" where
  "strip_trailing_slash s = (if s \<noteq> [] \<and> last s = CHR ''/'' then butlast s else s)"

text \<open>
  The replacement text of \<open>String.prototype.replace\<close>, for a match \<open>m\<close> with the text
  \<open>b\<close> before it and the text \<open>a\<close> after it: \<open>$$\<close> stands for a dollar sign, \<open>$&\<close>
  for the match, \<open>$`\<close> for the text before and \<open>$'\<close> for the text after the match.
  The patterns of this module have no capture group, so a dollar sign before a digit,
  like one before any other character, stands for itself.
\<close>

fun expand_replacement :: "string \<Rightarrow> string \<Rightarrow> string \<Rightarrow> string \<Rightarrow> string" where
  "expand_replacement m b a (c # d # r) =
     (if c = CHR ''$'' \<and> d = CHR ''$'' then CHR ''$'' # expand_replacement m b a r
      else if c = CHR ''$'' \<and> d = CHR ''&'' then m @ expand_replacement m b a r
      else if c = CHR ''$'' \<and> d = CHR 0x60 then b @ expand_replacement m b a r
      else if c = CHR ''$'' \<and> d = CHR 0x27 then a @ expand_replacement m b a r
      else c # expand_replacement m b a (d # r))"
| "expand_replacement m b a r = r"

text \<open>
  \<open>s.replace(new RegExp('^' + RegExp.quote(pre)), by)\<close>: the quoted pattern matches
  \<open>pre\<close> literally at the start of \<open>s\<close>; nothing precedes the match.
\<close>

definition replace_prefix :: "string \<Rightarrow> string \<Rightarrow> string \<Rightarrow> string" where
  "replace_prefix pre by s =
     (if prefix pre s
      then expand_replacement pre [] (drop (length pre) s) by @ drop (length pre) s
      else s)"

subsection \<open>JavaScript numbers\<close>

text \<open>
  A JavaScript number is a double. An integer of at most 53 bits is a double; the
  sum of two numbers is the exact sum rounded to 53 significant bits, to the nearest
  double and, halfway between two, to the one with the even significand. (The sums of
  this module stay far below the range where a double overflows.)
\<close>

fun bit_length :: "nat \<Rightarrow> nat" where
  "bit_length n = (if n = 0 then 0 else Suc (bit_length (n div 2)))"

declare bit_length.simps [simp del]

definition to_double :: "int \<Rightarrow> int" where
  "to_double n =
     (let a = nat \<bar>n\<bar>; l = bit_length a in
      if l \<le> 53 then n
      else
        let s = l - 53; q = a div 2 ^ s; r = a mod 2 ^ s; half = 2 ^ (s - 1);
            q' = (if half < r \<or> (r = half \<and> odd q) then q + 1 else q)
        in sgn n * int (q' * 2 ^ s))"

definition js_plus :: "int \<Rightarrow> int \<Rightarrow> int" where
  "js_plus a b = to_double (a + b)"

text \<open>The integers that are doubles with all their neighbours.\<close>

definition safe_integer :: "int \<Rightarrow> bool" where
  "safe_integer n = (\<bar>n\<bar> < 2 ^ 53)"

subsection \<open>Tree queries\<close>

text \<open>\<open>page.url = options.root + page.slug\<close>.\<close>

definition set_url :: "string \<Rightarrow> page \<Rightarrow> page" where
  "set_url root p = p\<lparr>url := Some (root @ slug p)\<rparr>"

text \<open>
  The loop of \<open>getAncestors\<close> over the components of the path: the state is the
  variable \<open>path\<close> and the array \<open>paths\<close>. The \<open>return\<close> on the page's own path
  leaves the callback before the push and before the slash is appended.
\<close>

definition ancestor_step :: "string \<Rightarrow> string \<Rightarrow> string \<times> string list \<Rightarrow> string \<times> string list" where
  "ancestor_step pagePath component st =
     (let path1 = fst st @ component in
      if path1 = pagePath then (path1, snd st)
      else (path1 @ ''/'', snd st @ [path1]))"

definition ancestorPaths :: "string \<Rightarrow> string list" where
  "ancestorPaths pagePath =
     snd (fold (ancestor_step pagePath) (js_split CHR ''/'' pagePath) ([], []))"

text \<open>
  \<open>getAncestors(page, options, callback)\<close>. An empty path is falsy: the callback
  then gets no ancestors at all (\<open>None\<close>, the source's \<open>undefined\<close>). Otherwise
  the store is asked for the pages whose path is in \<open>paths\<close>, sorted by path.
\<close>

definition getAncestors :: "page \<Rightarrow> string \<Rightarrow> page list \<Rightarrow> page list option" where
  "getAncestors pg root store =
     (if path pg \<noteq> []
      then Some (map (set_url root)
                  (sort_key path (filter (\<lambda>p. path p \<in> set (ancestorPaths (path pg))) store)))
      else None)"

text \<open>
  The query of \<open>getDescendants\<close>: the path starts with \<open>page.path + '/'\<close>, the level
  is in \<open>(page.level, page.level + depth]\<close>, and the result is sorted by level, then
  rank. Pages that tie keep the order of the collection.
\<close>

definition descendantQuery :: "page \<Rightarrow> int \<Rightarrow> page list \<Rightarrow> page list" where
  "descendantQuery pg depth store =
     sort_key (\<lambda>p. (level p, rank p))
       (filter (\<lambda>p. prefix (path pg @ ''/'') (path p)
                   \<and> level pg < level p \<and> level p \<le> js_plus (level pg) depth) store)"

text \<open>
  The result of \<open>getDescendants\<close> is a graph of objects: the pages of the query
  result, each with a \<open>children\<close> array, and the top-level array \<open>children\<close>. An
  object is named by its index in the query result. \<open>pagesByPath\<close> holds the own
  properties of the dictionary of the loop, from a path to the object last stored under
  it.
\<close>

record nesting =
  nodes :: "page list"
  children :: "nat list"
  pagesByPath :: "string \<rightharpoonup> nat"
  kids :: "nat \<Rightarrow> nat list"

definition parentPath :: "string \<Rightarrow> string" where
  "parentPath p = substr0 p (lastIndexOf p CHR ''/'')"

text \<open>
  The dictionary is a plain object \<open>{}\<close>: a name that is not an own property is
  looked up in \<open>Object.prototype\<close>, whose properties are these. All of them are
  truthy (functions, and the prototype itself under \<open>__proto__\<close>) and none has a
  \<open>children\<close> array.
\<close>

definition object_prototype_names :: "string list" where
  "object_prototype_names =
     [''constructor'', ''toString'', ''toLocaleString'', ''valueOf'', ''hasOwnProperty'',
      ''isPrototypeOf'', ''propertyIsEnumerable'', ''__defineGetter__'', ''__defineSetter__'',
      ''__lookupGetter__'', ''__lookupSetter__'', ''__proto__'']"

text \<open>
  One round of the \<open>_.each\<close> of \<open>getDescendants\<close>, for the object \<open>i\<close>: its
  \<open>children\<close> becomes empty, it is entered in \<open>pagesByPath\<close>, and it is pushed
  either on the children of the object found under its parent path or on the
  top-level array. When the parent path is no own property but a name of
  \<open>Object.prototype\<close>, the test \<open>pagesByPath[parentPath]\<close> holds and
  \<open>.children.push\<close> throws a TypeError. (A path that is entered contains a slash,
  as every path of the query does, so it is never \<open>__proto__\<close>, the one name whose
  assignment would not make an own property.)
\<close>

definition nest_step :: "nat \<times> page \<Rightarrow> nesting \<Rightarrow> error + nesting" where
  "nest_step ip g =
     (let i = fst ip; pg = snd ip;
          g1 = g\<lparr>kids := (kids g)(i := []),
                 pagesByPath := (pagesByPath g)(path pg \<mapsto> i)\<rparr>
      in case pagesByPath g1 (parentPath (path pg)) of
           Some j \<Rightarrow> Inr (g1\<lparr>kids := (kids g1)(j := kids g1 j @ [i])\<rparr>)
         | None \<Rightarrow>
             if parentPath (path pg) \<in> set object_prototype_names then Inl TypeError
             else Inr (g1\<lparr>children := children g1 @ [i]\<rparr>))"

text \<open>The \<open>_.each\<close>: an exception ends it.\<close>

fun nest_loop :: "(nat \<times> page) list \<Rightarrow> nesting \<Rightarrow> error + nesting" where
  "nest_loop [] g = Inr g"
| "nest_loop (ip # ips) g =
     (case nest_step ip g of
        Inl err \<Rightarrow> Inl err
      | Inr g' \<Rightarrow> nest_loop ips g')"

definition nest :: "page list \<Rightarrow> error + nesting" where
  "nest ps =
     nest_loop (enumerate 0 ps)
       \<lparr>nodes = ps, children = [], pagesByPath = Map.empty, kids = (\<lambda>_. [])\<rparr>"

text \<open>
  \<open>getDescendants(page, options, callback)\<close>; \<open>depth\<close> is \<open>options.depth\<close>, with 1
  when it is undefined. The result is the graph handed to the callback, or the
  exception thrown inside the callback of the query, in which case the callback of
  \<open>getDescendants\<close> is never called.
\<close>

definition getDescendants :: "page \<Rightarrow> string \<Rightarrow> int option \<Rightarrow> page list \<Rightarrow> error + nesting" where
  "getDescendants pg root depth store =
     nest (map (set_url root)
            (descendantQuery pg (case depth of None \<Rightarrow> 1 | Some d \<Rightarrow> d) store))"

text \<open>The objects that can be reached from the returned array.\<close>

inductive reach :: "nesting \<Rightarrow> nat \<Rightarrow> bool" for g :: nesting where
  top: "i \<in> set (children g) \<Longrightarrow> reach g i"
| kid: "reach g j \<Longrightarrow> i \<in> set (kids g j) \<Longrightarrow> reach g i"

subsection \<open>The store and the collaborators\<close>

text \<open>
  The page argument that \<open>apos.getPage\<close> hands to its callback: the stored page with
  exactly this slug, if any.
\<close>

definition getPage :: "string \<Rightarrow> page list \<Rightarrow> page option" where
  "getPage s store = find (\<lambda>p. slug p = s) store"

text \<open>
  The store is MongoDB behind \<open>apos.pages\<close>; the module only calls it. The pages
  collection has the unique index on \<open>path\<close> that \<open>pathIndex\<close> ensures, and it is
  keyed by a unique \<open>slug\<close> (the persisted shape of the specification, section 6): a
  write whose document would share its slug or its path with another document is
  refused with a duplicate key error. In the three POST handlers reads and writes have
  no other failure; \<open>serve\<close> below takes the failures of its reads as an argument.
\<close>

definition clashes :: "page \<Rightarrow> page list \<Rightarrow> bool" where
  "clashes p others = (slug p \<in> set (map slug others) \<or> path p \<in> set (map path others))"

text \<open>
  \<open>apos.putPage(slug, page, callback)\<close>: the document stored under \<open>slug\<close> is
  replaced by \<open>page\<close>, or \<open>page\<close> is inserted when there is none.
\<close>

definition putPage :: "string \<Rightarrow> page \<Rightarrow> page list \<Rightarrow> error + page list" where
  "putPage s p store =
     (case List.extract (\<lambda>q. slug q = s) store of
        Some (before, old, after) \<Rightarrow>
          if clashes p (before @ after) then Inl DuplicateKey
          else Inr (before @ p # after)
      | None \<Rightarrow>
          if clashes p store then Inl DuplicateKey else Inr (store @ [p]))"

text \<open>
  \<open>apos.pages.update({ slug: s }, { $set: { slug: s' } }, callback)\<close>: the first
  document with slug \<open>s\<close> gets the slug \<open>s'\<close>; no document, no change.
\<close>

definition updateSlug :: "string \<Rightarrow> string \<Rightarrow> page list \<Rightarrow> error + page list" where
  "updateSlug s s' store =
     (case List.extract (\<lambda>q. slug q = s) store of
        Some (before, old, after) \<Rightarrow>
          if s' \<in> set (map slug (before @ after)) then Inl DuplicateKey
          else Inr (before @ old\<lparr>slug := s'\<rparr> # after)
      | None \<Rightarrow> Inr store)"

text \<open>\<open>apos.pages.remove({ slug: s }, callback)\<close>.\<close>

definition removeSlug :: "string \<Rightarrow> page list \<Rightarrow> page list" where
  "removeSlug s store = filter (\<lambda>q. slug q \<noteq> s) store"

text \<open>
  Setting a property of an object, and the upsert of a redirect
  (\<open>apos.updateRedirect(from, to, callback)\<close>): the entry under the key is
  overwritten, or added.
\<close>

fun upsert :: "string \<Rightarrow> string \<Rightarrow> (string \<times> string) list \<Rightarrow> (string \<times> string) list" where
  "upsert k v [] = [(k, v)]"
| "upsert k v (kv # kvs) = (if fst kv = k then (k, v) # kvs else kv # upsert k v kvs)"

definition updateRedirect :: "string \<Rightarrow> string \<Rightarrow> (string \<times> string) list \<Rightarrow> (string \<times> string) list" where
  "updateRedirect originalSlug s rs = upsert originalSlug s rs"

text \<open>
  A request to one of the POST routes: the user and the fields of \<open>req.body\<close>;
  \<open>b_data n\<close> is \<open>req.body[n] || {}\<close>.
\<close>

record request =
  user :: "string option"
  b_title :: string
  b_type :: string
  b_parent :: string
  b_slug :: string
  b_originalSlug :: string
  b_data :: "string \<Rightarrow> string"

text \<open>
  What the module takes from outside: \<open>apos.permissions\<close> (true when the callback
  gets no error; the subject is \<open>None\<close> when the source passes \<open>undefined\<close>),
  \<open>apos.slugify\<close> (with its \<open>allowed\<close> option first, empty when there is none),
  and the registered page types \<open>aposPages.types\<close>.
\<close>

record env =
  permissions :: "request \<Rightarrow> string \<Rightarrow> page option \<Rightarrow> bool"
  slugify :: "string \<Rightarrow> string \<Rightarrow> string"
  types :: "pagetype list"

definition getType :: "env \<Rightarrow> string \<Rightarrow> pagetype option" where
  "getType e n = find (\<lambda>item. name item = n) (types e)"

text \<open>
  \<open>determineType\<close> assigns to \<open>type\<close> without declaring it, so what it returns is
  also the value of the global variable \<open>type\<close> from then on (\<open>None\<close> is
  \<open>undefined\<close>: neither the submitted type nor \<open>default\<close> is registered).
\<close>

definition determineType :: "env \<Rightarrow> request \<Rightarrow> pagetype option" where
  "determineType e req =
     (case getType e (b_type req) of
        Some ty \<Rightarrow> Some ty
      | None \<Rightarrow> getType e ''default'')"

text \<open>
  \<open>page[k] = v\<close> for a string \<open>v\<close>: a property named like a text field of the page is
  that field. The numeric fields \<open>level\<close> and \<open>rank\<close> cannot hold a string here: the
  statements below on pages that went through \<open>addSanitizedTypeData\<close> are made for
  page types that have no sanitizer or are not named like a field (\<open>plain_type\<close>).
\<close>

definition setProperty :: "string \<Rightarrow> string \<Rightarrow> page \<Rightarrow> page" where
  "setProperty k v pg =
     (if k = ''slug'' then pg\<lparr>slug := v\<rparr>
      else if k = ''path'' then pg\<lparr>path := v\<rparr>
      else if k = ''title'' then pg\<lparr>title := v\<rparr>
      else if k = ''type'' then pg\<lparr>ptype := v\<rparr>
      else if k = ''url'' then pg\<lparr>url := Some v\<rparr>
      else pg\<lparr>typeData := upsert k v (typeData pg)\<rparr>)"

definition field_names :: "string list" where
  "field_names = [''slug'', ''path'', ''level'', ''rank'', ''type'', ''title'', ''url'']"

definition plain_type :: "pagetype \<Rightarrow> bool" where
  "plain_type ty = (sanitize ty = None \<or> name ty \<notin> set field_names)"

text \<open>
  \<open>addSanitizedTypeData\<close>: when the type has a sanitizer, the cleaned data becomes
  the property \<open>page[type.name]\<close>, or the error of the sanitizer ends the step.
\<close>

definition addSanitizedTypeData :: "request \<Rightarrow> page \<Rightarrow> pagetype \<Rightarrow> error + page" where
  "addSanitizedTypeData req pg ty =
     (case sanitize ty of
        Some f \<Rightarrow>
          (case f (b_data req (name ty)) of
             None \<Rightarrow> Inl SanitizeError
           | Some data \<Rightarrow> Inr (setProperty (name ty) data pg))
      | None \<Rightarrow> Inr pg)"

subsection \<open>POST /apos-pages/new\<close>

text \<open>The \<open>_.reduce\<close> of \<open>getNextRank\<close> over the array that \<open>getDescendants\<close> returns.\<close>

definition rank_step :: "page \<Rightarrow> int \<Rightarrow> int" where
  "rank_step child memo = (if rank child \<ge> memo then js_plus (rank child) 1 else memo)"

definition top_pages :: "nesting \<Rightarrow> page list" where
  "top_pages g = map (\<lambda>i. nodes g ! i) (children g)"

definition getNextRank :: "page \<Rightarrow> page list \<Rightarrow> error + int" where
  "getNextRank parent store =
     (case getDescendants parent [] (Some 1) store of
        Inl err \<Rightarrow> Inl err
      | Inr g \<Rightarrow> Inr (fold rank_step (top_pages g) 1))"

definition addSlashIfNeeded :: "string \<Rightarrow> string" where
  "addSlashIfNeeded p = replace_first_slashes (p @ ''/'')"

text \<open>
  The handler runs \<open>getParent\<close>, \<open>permissions\<close>, \<open>getNextRank\<close>, \<open>insertPage\<close> in
  series and stops at the first error. It returns what \<open>sendPage\<close> sends (the error,
  or the page) and the store. An exception (the TypeError of \<open>getDescendants\<close>, or
  of \<open>type.name\<close> when no type was found) ends the request without an answer; it is
  the result \<open>Inl TypeError\<close>.
\<close>

definition new_handler :: "env \<Rightarrow> request \<Rightarrow> db \<Rightarrow> (error + page) \<times> db" where
  "new_handler e req d =
     (let title0 = trim (b_title req);
          title1 = (if title0 = [] then ''New Page'' else title0);
          ty = determineType e req;
          parentSlug = b_parent req
      in case getPage parentSlug (pages d) of
           None \<Rightarrow> (Inl BadParent, d)
         | Some parent \<Rightarrow>
             if \<not> permissions e req ''add-page'' (Some parent) then (Inl PermissionDenied, d)
             else
               (case getNextRank parent (pages d) of
                  Inl err \<Rightarrow> (Inl err, d)
                | Inr nextRank \<Rightarrow>
                    (case ty of
                       None \<Rightarrow> (Inl TypeError, d)
                     | Some t \<Rightarrow>
                         let pg = \<lparr>slug = addSlashIfNeeded parentSlug @ slugify e [] title1,
                                   path = path parent @ ''/'' @ slugify e [] title1,
                                   level = js_plus (level parent) 1,
                                   rank = nextRank,
                                   ptype = name t,
                                   title = title1,
                                   typeData = [],
                                   url = None\<rparr>
                         in (case addSanitizedTypeData req pg t of
                               Inl err \<Rightarrow> (Inl err, d)
                             | Inr pg' \<Rightarrow>
                                 (case putPage (slug pg') pg' (pages d) of
                                    Inl err \<Rightarrow> (Inl err, d)
                                  | Inr ps \<Rightarrow> (Inr pg', d\<lparr>pages := ps\<rparr>))))))"

subsection \<open>POST /apos-pages/edit\<close>

definition normalizeSlug :: "env \<Rightarrow> string \<Rightarrow> string" where
  "normalizeSlug e s =
     (let s1 = slugify e ''/'' s;
          s2 = (if \<not> prefix ''/'' s1 then ''/'' @ s1 else s1);
          s3 = collapse_slashes s2
      in strip_trailing_slash s3)"

text \<open>\<open>async.mapSeries\<close> over store writes: the first error ends the series.\<close>

fun mapSeries :: "('a \<Rightarrow> page list \<Rightarrow> error + page list) \<Rightarrow> 'a list \<Rightarrow> page list
    \<Rightarrow> error option \<times> page list" where
  "mapSeries f [] store = (None, store)"
| "mapSeries f (x # xs) store =
     (case f x store of
        Inl err \<Rightarrow> (Some err, store)
      | Inr store' \<Rightarrow> mapSeries f xs store')"

definition descendantsBySlug :: "string \<Rightarrow> page list \<Rightarrow> page list" where
  "descendantsBySlug originalSlug store =
     filter (\<lambda>p. prefix (originalSlug @ ''/'') (slug p)) store"

definition updateDescendants :: "string \<Rightarrow> string \<Rightarrow> page list \<Rightarrow> error option \<times> page list" where
  "updateDescendants originalSlug s store =
     (if originalSlug = s then (None, store)
      else mapSeries
             (\<lambda>descendant.
                updateSlug (slug descendant)
                  (replace_prefix (originalSlug @ ''/'') (s @ ''/'') (slug descendant)))
             (descendantsBySlug originalSlug store) store)"

text \<open>
  The handler runs \<open>getPage\<close>, \<open>permissions\<close>, \<open>updatePage\<close>, \<open>redirect\<close>,
  \<open>updateDescendants\<close> in series. Nothing is undone when a later step fails.
\<close>

definition edit_handler :: "env \<Rightarrow> request \<Rightarrow> db \<Rightarrow> (error + page) \<times> db" where
  "edit_handler e req d =
     (let title0 = trim (b_title req);
          title1 = (if title0 = [] then ''Untitled Page'' else title0);
          ty = determineType e req;
          originalSlug = b_originalSlug req;
          s = normalizeSlug e (b_slug req)
      in case getPage originalSlug (pages d) of
           None \<Rightarrow> (Inl BadPage, d)
         | Some pg0 \<Rightarrow>
             if \<not> permissions e req ''edit'' (Some pg0) then (Inl PermissionDenied, d)
             else
               (case ty of
                  None \<Rightarrow> (Inl TypeError, d)
                | Some t \<Rightarrow>
                    let pg = pg0\<lparr>title := title1, slug := s, ptype := name t\<rparr> in
                    if s \<noteq> originalSlug \<and> originalSlug = ''/'' then (Inl HomeSlug, d)
                    else
                      (case addSanitizedTypeData req pg t of
                         Inl err \<Rightarrow> (Inl err, d)
                       | Inr pg' \<Rightarrow>
                           (case putPage originalSlug pg' (pages d) of
                              Inl err \<Rightarrow> (Inl err, d)
                            | Inr ps \<Rightarrow>
                                let rs = updateRedirect originalSlug s (redirects d) in
                                (case updateDescendants originalSlug s ps of
                                   (Some err, ps') \<Rightarrow>
                                     (Inl err, \<lparr>pages = ps', redirects = rs\<rparr>)
                                 | (None, ps') \<Rightarrow>
                                     (Inr pg', \<lparr>pages = ps', redirects = rs\<rparr>))))))"

subsection \<open>POST /apos-pages/delete\<close>

text \<open>
  The handler runs \<open>getPage\<close>, \<open>permissions\<close>, \<open>getParent\<close>, \<open>checkChildren\<close>,
  \<open>deletePage\<close> in series. The variable \<open>parent\<close> is assigned by \<open>getParent\<close>, so
  \<open>permissions\<close>, which runs before it, passes \<open>undefined\<close> as the subject. On
  success the response carries the slug of the parent. An exception (the TypeError of
  \<open>ancestors.length\<close> when there is no array, or of \<open>getDescendants\<close>) ends the
  request without an answer; it is the result \<open>Inl TypeError\<close>.
\<close>

definition delete_handler :: "env \<Rightarrow> request \<Rightarrow> db \<Rightarrow> (error + string) \<times> db" where
  "delete_handler e req d =
     (case getPage (b_slug req) (pages d) of
        None \<Rightarrow> (Inl NotFound, d)
      | Some pg \<Rightarrow>
          if \<not> permissions e req ''add-page'' None then (Inl PermissionDenied, d)
          else
            (case getAncestors pg [] (pages d) of
               None \<Rightarrow> (Inl TypeError, d)
             | Some ancestors \<Rightarrow>
                 if ancestors = [] then (Inl HomePage, d)
                 else
                   let parent = last ancestors in
                   (case getDescendants pg [] (Some 1) (pages d) of
                      Inl err \<Rightarrow> (Inl err, d)
                    | Inr descendants \<Rightarrow>
                        if children descendants \<noteq> [] then (Inl HasChildren, d)
                        else (Inr (slug parent),
                              d\<lparr>pages := removeSlug (slug pg) (pages d)\<rparr>))))"

subsection \<open>GET: serve\<close>

text \<open>The request object of \<open>serve\<close> with the properties that the steps set.\<close>

record srequest =
  s_param :: string
  s_user :: "string option"
  s_slug :: string
  s_type :: "string option"
  s_page :: "page option"
  s_bestPage :: "page option"
  s_remainder :: string
  s_loginRequired :: bool
  s_insufficient :: bool
  s_edit :: "bool option"
  s_ancestors :: "page list option"
  s_children :: "nesting option"

text \<open>
  The options of \<open>serve\<close> and its collaborators: \<open>o_resolve\<close> is \<open>apos.getPage\<close> (the
  error, or the page, the best page and the remainder), \<open>o_permissions\<close> is
  \<open>apos.permissions\<close>, \<open>o_load\<close> stands for the whole array of loaders run by
  \<open>async.parallel\<close> (they may change the request and may fail), \<open>o_notfound\<close> is the
  optional handler. The page and the best page are kept as two values, whether or not
  \<open>apos.getPage\<close> hands out one object for both.
\<close>

record options =
  o_root :: string
  o_depth :: "int option"
  o_templatePath :: "string option"
  o_templatePaths :: "(string \<times> string) list option"
  o_resolve :: "string \<Rightarrow> error + (page option \<times> page option \<times> string)"
  o_permissions :: "srequest \<Rightarrow> string \<Rightarrow> page \<Rightarrow> bool"
  o_load :: "srequest \<Rightarrow> error option \<times> srequest"
  o_notfound :: "(srequest \<Rightarrow> error option \<times> srequest) option"

text \<open>
  What lies outside the request: the directory of the module (\<open>__dirname\<close>) and the
  global variable \<open>type\<close>, which is \<open>None\<close> as long as it is undeclared and otherwise
  holds what the last call of \<open>determineType\<close> left in it.
\<close>

record process =
  dirname :: string
  type_global :: "pagetype option option"

text \<open>
  The reads of the store that \<open>serve\<close> makes, each with the error it fails with, if
  it fails: the \<open>find\<close> of \<open>getAncestors\<close>, the \<open>find\<close> of \<open>getDescendants\<close> and the
  \<open>findOne\<close> on the redirects.
\<close>

record reads =
  ancestors_read :: "error option"
  descendants_read :: "error option"
  redirect_read :: "error option"

text \<open>
  A response: a redirect; or the status code with what is rendered, the type, the
  path of the template and the page given to it; or none, when an exception ended the
  request.
\<close>

datatype response = Redirect string | Send nat string string "page option" | Thrown error

definition page_step :: "options \<Rightarrow> srequest \<Rightarrow> error option \<times> srequest" where
  "page_step opts req =
     (let s = (if s_param req = [] \<or> hd (s_param req) \<noteq> CHR ''/''
               then ''/'' @ s_param req else s_param req);
          req1 = req\<lparr>s_slug := s\<rparr>
      in case o_resolve opts s of
           Inl err \<Rightarrow> (Some err, req1)
         | Inr (pg, best, remainder) \<Rightarrow>
             (None, req1\<lparr>s_page := pg,
                         s_bestPage := map_option (set_url (o_root opts)) best,
                         s_remainder := remainder\<rparr>))"

definition checkView :: "options \<Rightarrow> page \<Rightarrow> srequest \<Rightarrow> srequest" where
  "checkView opts best req =
     (if \<not> o_permissions opts req ''view-page'' best
      then (if s_user req \<noteq> None then req\<lparr>s_insufficient := True\<rparr>
            else req\<lparr>s_loginRequired := True\<rparr>)
      else req)"

definition checkEdit :: "options \<Rightarrow> page \<Rightarrow> srequest \<Rightarrow> srequest" where
  "checkEdit opts best req = req\<lparr>s_edit := Some (o_permissions opts req ''edit-page'' best)\<rparr>"

definition permissions_step :: "options \<Rightarrow> srequest \<Rightarrow> srequest" where
  "permissions_step opts req =
     (case s_bestPage req of
        None \<Rightarrow> req
      | Some best \<Rightarrow> checkEdit opts best (checkView opts best req))"

text \<open>
  \<open>relatives\<close>: the ancestors, then the descendants of the best page. A failed read
  leaves the property undefined and ends the series with its error; \<open>getAncestors\<close>
  reads nothing for an empty path. The exception of \<open>getDescendants\<close> is \<open>Inl\<close>.
\<close>

definition relatives :: "options \<Rightarrow> reads \<Rightarrow> page list \<Rightarrow> srequest
    \<Rightarrow> error + (error option \<times> srequest)" where
  "relatives opts flt store req =
     (case s_bestPage req of
        None \<Rightarrow> Inr (None, req)
      | Some best \<Rightarrow>
          if path best \<noteq> [] \<and> ancestors_read flt \<noteq> None
          then Inr (ancestors_read flt, req\<lparr>s_ancestors := None\<rparr>)
          else
            let req1 = req\<lparr>s_ancestors := getAncestors best (o_root opts) store\<rparr> in
            if descendants_read flt \<noteq> None
            then Inr (descendants_read flt, req1\<lparr>s_children := None\<rparr>)
            else
              (case getDescendants best (o_root opts) (o_depth opts) store of
                 Inl exn \<Rightarrow> Inl exn
               | Inr g \<Rightarrow> Inr (None, req1\<lparr>s_children := Some g\<rparr>)))"

text \<open>
  The first part of \<open>main(err)\<close>: a type chosen by a loader is respected; otherwise
  the status, the type and the page for the template are chosen from the error, the
  two permission flags and the page. \<open>!req.type\<close> holds for an undefined and for an
  empty type. (A page always has a type here, so the later test
  \<open>req.type === undefined\<close> never holds.)
\<close>

definition main_choice :: "pagetype list \<Rightarrow> error option \<Rightarrow> srequest
    \<Rightarrow> nat \<times> string \<times> page option" where
  "main_choice tys err req =
     (if s_type req = None \<or> s_type req = Some []
      then
        (if err \<noteq> None then (500, ''serverError'', None)
         else if s_loginRequired req then (200, ''loginRequired'', None)
         else if s_insufficient req then (200, ''insufficient'', None)
         else
           (case s_page req of
              Some pg \<Rightarrow>
                (200,
                 if list_ex (\<lambda>item. name item = ptype pg) tys then ptype pg else ''default'',
                 Some pg)
            | None \<Rightarrow> (404, ''notfound'', None)))
      else (200, the (s_type req), s_page req))"

text \<open>
  The second part: the path of the template. \<open>options.templatePaths[type]\<close> reads the
  global variable \<open>type\<close>, not \<open>req.type\<close>: a ReferenceError while it is undeclared,
  and otherwise the property named by the string that its value converts to.
\<close>

definition property_key :: "pagetype option \<Rightarrow> string" where
  "property_key v = (case v of None \<Rightarrow> ''undefined'' | Some t \<Rightarrow> ''[object Object]'')"

definition template_path :: "options \<Rightarrow> process \<Rightarrow> string \<Rightarrow> error + string" where
  "template_path opts proc ty =
     (let path0 = dirname proc @ ''/views/'' @ ty @ ''.html'';
          path1 = (case o_templatePath opts of
                     Some dir \<Rightarrow> if dir \<noteq> [] then dir @ ''/'' @ ty @ ''.html'' else path0
                   | None \<Rightarrow> path0)
      in case o_templatePaths opts of
           None \<Rightarrow> Inr path1
         | Some dirs \<Rightarrow>
             (case type_global proc of
                None \<Rightarrow> Inl ReferenceError
              | Some v \<Rightarrow>
                  (case map_of dirs (property_key v) of
                     Some dir \<Rightarrow> if dir \<noteq> [] then Inr (dir @ ''/'' @ ty @ ''.html'') else Inr path1
                   | None \<Rightarrow> Inr path1)))"

definition main :: "options \<Rightarrow> process \<Rightarrow> pagetype list \<Rightarrow> error option \<Rightarrow> srequest
    \<Rightarrow> response" where
  "main opts proc tys err req =
     (case main_choice tys err req of
        (status, ty, pg) \<Rightarrow>
          (case template_path opts proc ty of
             Inl exn \<Rightarrow> Thrown exn
           | Inr p \<Rightarrow> Send status ty p pg))"

text \<open>
  The series \<open>page\<close>, \<open>permissions\<close>, \<open>relatives\<close>, \<open>load\<close>, \<open>notfound\<close>, ended by
  \<open>main\<close> with the first error, if any. In \<open>notfound\<close>, a redirect found for the
  requested slug answers the request at once; the callback of that lookup does not
  look at its error argument, so after a failed lookup the series goes on without an
  error.
\<close>

definition serve :: "options \<Rightarrow> process \<Rightarrow> reads \<Rightarrow> pagetype list \<Rightarrow> db \<Rightarrow> srequest
    \<Rightarrow> response" where
  "serve opts proc flt tys d req0 =
     (case page_step opts req0 of
        (Some err, req1) \<Rightarrow> main opts proc tys (Some err) req1
      | (None, req1) \<Rightarrow>
          (case relatives opts flt (pages d) (permissions_step opts req1) of
             Inl exn \<Rightarrow> Thrown exn
           | Inr (Some err, req3) \<Rightarrow> main opts proc tys (Some err) req3
           | Inr (None, req3) \<Rightarrow>
               (case o_load opts req3 of
                  (Some err, req4) \<Rightarrow> main opts proc tys (Some err) req4
                | (None, req4) \<Rightarrow>
                    (case s_page req4 of
                       Some pg \<Rightarrow> main opts proc tys None req4
                     | None \<Rightarrow>
                         (case o_notfound opts of
                            Some handler \<Rightarrow>
                              (case handler req4 of
                                 (err, req5) \<Rightarrow> main opts proc tys err req5)
                          | None \<Rightarrow>
                              (case redirect_read flt of
                                 Some err \<Rightarrow> main opts proc tys None req4
                               | None \<Rightarrow>
                                   (case map_of (redirects d) (s_slug req4) of
                                      Some target \<Rightarrow> Redirect (o_root opts @ target)
                                    | None \<Rightarrow> main opts proc tys None req4)))))))"

subsection \<open>A sample site\<close>

text \<open>
  A home page with two children and one grandchild, a permission collaborator that
  allows everything, and only the type \<open>default\<close> registered. The sample
  \<open>slugify\<close> returns its argument, as \<open>apos.slugify\<close> does on the lower-case
  names used below.
\<close>

definition mk_page :: "string \<Rightarrow> string \<Rightarrow> int \<Rightarrow> int \<Rightarrow> page" where
  "mk_page s p l r =
     \<lparr>slug = s, path = p, level = l, rank = r, ptype = ''default'', title = ''t'',
      typeData = [], url = None\<rparr>"

definition demo_pages :: "page list" where
  "demo_pages =
     [mk_page ''/'' ''home'' 0 0,
      mk_page ''/about'' ''home/about'' 1 1,
      mk_page ''/contact'' ''home/contact'' 1 2,
      mk_page ''/about/team'' ''home/about/team'' 2 1]"

definition demo_db :: db where
  "demo_db = \<lparr>pages = demo_pages, redirects = []\<rparr>"

definition demo_env :: env where
  "demo_env =
     \<lparr>permissions = (\<lambda>_ _ _. True),
      slugify = (\<lambda>allowed s. s),
      types = [\<lparr>name = ''default'', sanitize = None\<rparr>]\<rparr>"

definition demo_request :: request where
  "demo_request =
     \<lparr>user = None, b_title = ''x'', b_type = ''blog'', b_parent = ''/'',
      b_slug = ''/company'', b_originalSlug = ''/about'', b_data = (\<lambda>_. [])\<rparr>"

text \<open>
  A permission collaborator that refuses every action on every page and agrees only
  when it is given no page at all.
\<close>

definition guarded_env :: env where
  "guarded_env = demo_env\<lparr>permissions := (\<lambda>r a subject. subject = None)\<rparr>"

text \<open>A permission collaborator that refuses everything.\<close>

definition closed_env :: env where
  "closed_env = demo_env\<lparr>permissions := (\<lambda>r a subject. False)\<rparr>"

text \<open>A request to \<open>serve\<close>, and options without loaders whose permission collaborator
  refuses the page \<open>/contact\<close>.\<close>

definition demo_sreq :: srequest where
  "demo_sreq =
     \<lparr>s_param = ''about'', s_user = None, s_slug = ''/about'', s_type = None, s_page = None,
      s_bestPage = None, s_remainder = [], s_loginRequired = False, s_insufficient = False,
      s_edit = None, s_ancestors = None, s_children = None\<rparr>"

definition demo_options :: options where
  "demo_options =
     \<lparr>o_root = [], o_depth = None, o_templatePath = None, o_templatePaths = None,
      o_resolve = (\<lambda>s. Inr (getPage s demo_pages, getPage s demo_pages, [])),
      o_permissions = (\<lambda>r a p. slug p \<noteq> ''/contact''),
      o_load = (\<lambda>r. (None, r)),
      o_notfound = None\<rparr>"

text \<open>A process in which no POST handler has run yet, and a store whose reads succeed.\<close>

definition demo_process :: process where
  "demo_process = \<lparr>dirname = ''/srv'', type_global = None\<rparr>"

definition demo_reads :: reads where
  "demo_reads = \<lparr>ancestors_read = None, descendants_read = None, redirect_read = None\<rparr>"

text \<open>
  A site whose home page has the path \<open>constructor\<close>, a property name that every
  JavaScript object inherits, with one child.
\<close>

definition inherited_pages :: "page list" where
  "inherited_pages =
     [mk_page ''/'' ''constructor'' 0 0, mk_page ''/a'' ''constructor/a'' 1 1]"

text \<open>A home page whose only child has a negative rank, and an insert under it.\<close>

definition sunk_db :: db where
  "sunk_db = \<lparr>pages = [mk_page ''/'' ''home'' 0 0, mk_page ''/old'' ''home/old'' 1 (- 5)],
              redirects = []\<rparr>"

subsection \<open>Invariant (a) of the data model\<close>

text \<open>
  The slug segment of a page is the last component of its slug. The parent of a page
  is the one the delete handler takes: the last of its ancestors. Invariant (a): the
  path of a page is the path of its parent, a slash, and the slug segment of the page
  (nothing is asked of a page without a parent).
\<close>

definition slug_segment :: "page \<Rightarrow> string" where
  "slug_segment p = last (js_split CHR ''/'' (slug p))"

definition parentOf :: "page list \<Rightarrow> page \<Rightarrow> page option" where
  "parentOf store p =
     (case getAncestors p [] store of
        None \<Rightarrow> None
      | Some ancestors \<Rightarrow> if ancestors = [] then None else Some (last ancestors))"

definition invariant_a :: "page list \<Rightarrow> page \<Rightarrow> bool" where
  "invariant_a store p =
     (case parentOf store p of
        None \<Rightarrow> True
      | Some parent \<Rightarrow> path p = path parent @ ''/'' @ slug_segment p)"

text \<open>The sample site after \<open>/about\<close> has been renamed to \<open>/company\<close> with the title \<open>x\<close>.\<close>

definition renamed_db :: db where
  "renamed_db =
     \<lparr>pages = [mk_page ''/'' ''home'' 0 0,
               (mk_page ''/company'' ''home/about'' 1 1)\<lparr>title := ''x''\<rparr>,
               mk_page ''/contact'' ''home/contact'' 1 2,
               mk_page ''/company/team'' ''home/about/team'' 2 1],
      redirects = [(''/about'', ''/company'')]\<rparr>"

subsection \<open>The effect of the cascade on one page\<close>

text \<open>
  What \<open>updateDescendants\<close> writes for a page: the prefix \<open>originalSlug + '/'\<close> of
  its slug is replaced by \<open>slug + '/'\<close>; a page without that prefix is left as it is.
\<close>

definition cascaded :: "string \<Rightarrow> string \<Rightarrow> page \<Rightarrow> page" where
  "cascaded originalSlug s p = p\<lparr>slug := replace_prefix (originalSlug @ ''/'') (s @ ''/'') (slug p)\<rparr>"

subsection \<open>Components, depth and the level of a page\<close>

text \<open>\<open>components.join('/')\<close>, the inverse of the split.\<close>

fun join_slash :: "string list \<Rightarrow> string" where
  "join_slash [] = []"
| "join_slash [c] = c"
| "join_slash (c # d # cs) = c @ CHR ''/'' # join_slash (d # cs)"

text \<open>
  The levels of a set of pages follow their paths: the level of a page is the number
  of slashes of its path, counted from the level \<open>c\<close> of a path without slash. The
  insert handler keeps this: a child gets the level of its parent plus one and the
  path of its parent plus a slash and a segment.
\<close>

definition levels_by_depth :: "int \<Rightarrow> page list \<Rightarrow> bool" where
  "levels_by_depth c ps = list_all (\<lambda>p. level p = c + int (count_list (path p) CHR ''/'')) ps"

subsection \<open>The loop of getDescendants, round by round\<close>

text \<open>What a round of the loop does when it does not throw.\<close>

definition place :: "nat \<times> page \<Rightarrow> nesting \<Rightarrow> nesting" where
  "place ip g =
     (let i = fst ip; pg = snd ip;
          g1 = g\<lparr>kids := (kids g)(i := []),
                 pagesByPath := (pagesByPath g)(path pg \<mapsto> i)\<rparr>
      in case pagesByPath g1 (parentPath (path pg)) of
           Some j \<Rightarrow> g1\<lparr>kids := (kids g1)(j := kids g1 j @ [i])\<rparr>
         | None \<Rightarrow> g1\<lparr>children := children g1 @ [i]\<rparr>)"

text \<open>The state of the loop after the first k objects, when no round has thrown.\<close>

definition nest_upto :: "page list \<Rightarrow> nat \<Rightarrow> nesting" where
  "nest_upto ps k =
     fold place (enumerate 0 (take k ps))
       \<lparr>nodes = ps, children = [], pagesByPath = Map.empty, kids = (\<lambda>_. [])\<rparr>"

text \<open>
  An object has its parent before it when an earlier object of the list carries the
  parent path of its path.
\<close>

definition has_parent_before :: "page list \<Rightarrow> nat \<Rightarrow> bool" where
  "has_parent_before ps i = (\<exists>j<i. path (ps ! j) = parentPath (path (ps ! i)))"

subsection \<open>Inserting several children\<close>

text \<open>
  The segment that the insert handler appends to the parent's path and slug: the
  slug of the trimmed title, or of \<open>New Page\<close> when the title is empty. A child of a
  page has the next level and the parent's path, a slash and one segment as its path.
  \<open>insert_all\<close> sends the requests to the handler one after the other.
\<close>

definition segmentOf :: "env \<Rightarrow> request \<Rightarrow> string" where
  "segmentOf e req =
     slugify e [] (let title0 = trim (b_title req) in if title0 = [] then ''New Page'' else title0)"

definition child_of :: "page \<Rightarrow> page \<Rightarrow> bool" where
  "child_of parent q =
     (level q = level parent + 1 \<and> prefix (path parent @ ''/'') (path q)
      \<and> CHR ''/'' \<notin> set (drop (length (path parent) + 1) (path q)))"

fun insert_all :: "env \<Rightarrow> request list \<Rightarrow> db \<Rightarrow> (error + page) list \<times> db" where
  "insert_all e [] d = ([], d)"
| "insert_all e (req # reqs) d =
     (case new_handler e req d of
        (r, d1) \<Rightarrow> (case insert_all e reqs d1 of (rs, d2) \<Rightarrow> (r # rs, d2)))"

text \<open>Two inserts under \<open>/contact\<close> on the sample site, and the pages they create.\<close>

definition two_requests :: "request list" where
  "two_requests =
     [demo_request\<lparr>b_parent := ''/contact'', b_title := ''a''\<rparr>,
      demo_request\<lparr>b_parent := ''/contact'', b_title := ''b''\<rparr>]"

definition two_children :: "page list" where
  "two_children =
     [(mk_page ''/contact/a'' ''home/contact/a'' 2 1)\<lparr>title := ''a''\<rparr>,
      (mk_page ''/contact/b'' ''home/contact/b'' 2 2)\<lparr>title := ''b''\<rparr>]"

section \<open>Properties\<close>

subsection \<open>Slug normalization of the edit handler\<close>

lemma collapse_no_double:
  "collapse_slashes s = a # b # r \<Longrightarrow> \<not> (a = CHR ''/'' \<and> b = CHR ''/'')"
proof (induction s arbitrary: a b r rule: collapse_slashes.induct)
  case (1 x y xs)
  show ?case
  proof (cases "x = CHR ''/'' \<and> y = CHR ''/''")
    case True
    with "1.prems" have "collapse_slashes (y # xs) = a # b # r" by simp
    with "1.IH"(1) True show ?thesis by blast
  next
    case False
    with "1.prems" have eq: "x = a" "collapse_slashes (y # xs) = b # r" by auto
    show ?thesis
    proof
      assume ab: "a = CHR ''/'' \<and> b = CHR ''/''"
      with eq False have y: "y \<noteq> CHR ''/''" by simp
      have "hd (collapse_slashes (y # xs)) = y"
        using y by (cases xs) auto
      with eq ab y show False by simp
    qed
  qed
qed simp_all

lemma strip_collapse_not_root: "strip_trailing_slash (collapse_slashes s) \<noteq> ''/''"
proof
  assume a: "strip_trailing_slash (collapse_slashes s) = ''/''"
  let ?t = "collapse_slashes s"
  show False
  proof (cases "?t \<noteq> [] \<and> last ?t = CHR ''/''")
    case True
    with a have "butlast ?t = ''/''" by (simp add: strip_trailing_slash_def)
    with True have "?t = ''//''"
      by (metis append_butlast_last_id append_Cons append_Nil)
    then show False using collapse_no_double by blast
  next
    case False
    with a have "?t = ''/''" by (auto simp add: strip_trailing_slash_def)
    with False show False by simp
  qed
qed

lemma normalizeSlug_not_root: "normalizeSlug e s \<noteq> ''/''"
  by (simp add: normalizeSlug_def Let_def strip_collapse_not_root)

text \<open>
  C4. The edit handler forces a leading slash, collapses runs of slashes and strips a
  trailing slash, but the root is not excepted: the last replacement turns \<open>/\<close> into
  the empty string. So no input is normalized to \<open>/\<close>, the test
  \<open>slug !== originalSlug\<close> always holds for the home page, and every edit of the home
  page ends in \<open>Cannot change the slug of the home page\<close> or an earlier error, also
  when the submitted slug is \<open>/\<close> itself.
\<close>

theorem edit_root_slug_not_kept:
  "normalizeSlug e s \<noteq> ''/''
   \<and> normalizeSlug demo_env ''/'' = []
   \<and> (\<forall>pg. fst (edit_handler e (req\<lparr>b_originalSlug := ''/''\<rparr>) d) \<noteq> Inr pg)
   \<and> edit_handler demo_env (demo_request\<lparr>b_originalSlug := ''/'', b_slug := ''/''\<rparr>) demo_db
       = (Inl HomeSlug, demo_db)"
proof -
  have 1: "normalizeSlug demo_env ''/'' = []" by code_simp
  have 2: "\<forall>pg. fst (edit_handler e (req\<lparr>b_originalSlug := ''/''\<rparr>) d) \<noteq> Inr pg"
    using normalizeSlug_not_root[of e "b_slug req"]
    by (auto simp add: edit_handler_def Let_def split: option.splits sum.splits prod.splits)
  have 3: "edit_handler demo_env (demo_request\<lparr>b_originalSlug := ''/'', b_slug := ''/''\<rparr>) demo_db
       = (Inl HomeSlug, demo_db)"
    by code_simp
  from normalizeSlug_not_root 1 2 3 show ?thesis by blast
qed


subsection \<open>Splitting and sorting\<close>

lemma js_split_nonempty: "js_split c s \<noteq> []"
  by (induction s) (auto split: list.splits)

lemma js_split_append: "js_split c (xs @ c # ys) = js_split c xs @ js_split c ys"
proof (induction xs)
  case Nil
  show ?case by simp
next
  case (Cons x xs)
  obtain w ws where w: "js_split c xs = w # ws"
    using js_split_nonempty[of c xs] by (cases "js_split c xs") auto
  with Cons show ?case by simp
qed

lemma last_js_split_append: "last (js_split c (xs @ c # ys)) = last (js_split c ys)"
  by (simp add: js_split_append js_split_nonempty)

lemma map_insort_key: "map f (insort_key f x xs) = insort (f x) (map f xs)"
  by (induction xs) simp_all

lemma map_sort_key: "map f (sort_key f xs) = sort (map f xs)"
  by (induction xs) (simp_all add: map_insort_key)

subsection \<open>The store\<close>

lemma find_append_skip: "\<forall>x\<in>set xs. \<not> P x \<Longrightarrow> find P (xs @ ys) = find P ys"
  by (induction xs) auto

lemma getType_name: "getType e n = Some t \<Longrightarrow> name t = n"
  by (auto simp add: getType_def find_Some_iff)


subsection \<open>Ancestors\<close>

lemma join_js_split: "join_slash (js_split CHR ''/'' s) = s"
proof (induction s)
  case Nil show ?case by simp
next
  case (Cons x xs)
  obtain w ws where w: "js_split CHR ''/'' xs = w # ws"
    using js_split_nonempty[of "CHR ''/''" xs] by (cases "js_split CHR ''/'' xs") auto
  with Cons show ?case by (cases ws) auto
qed

lemma js_split_no_sep: "w \<in> set (js_split c s) \<Longrightarrow> c \<notin> set w"
proof (induction s arbitrary: w)
  case Nil then show ?case by simp
next
  case (Cons x xs)
  obtain v vs where v: "js_split c xs = v # vs"
    using js_split_nonempty[of c xs] by (cases "js_split c xs") auto
  with Cons show ?case by (auto split: if_splits)
qed

lemma boundary_split:
  assumes "CHR ''/'' \<notin> set c"
  shows "(c @ CHR ''/'' # J = q @ CHR ''/'' # r) \<longleftrightarrow> (q = c \<and> r = J) \<or> (\<exists>q'. q = c @ CHR ''/'' # q' \<and> J = q' @ CHR ''/'' # r)"
proof
  assume eq: "c @ CHR ''/'' # J = q @ CHR ''/'' # r"
  then obtain us where "(c = q @ us \<and> us @ CHR ''/'' # J = CHR ''/'' # r) \<or> (c @ us = q \<and> CHR ''/'' # J = us @ CHR ''/'' # r)"
    by (auto simp add: append_eq_append_conv2)
  then show "(q = c \<and> r = J) \<or> (\<exists>q'. q = c @ CHR ''/'' # q' \<and> J = q' @ CHR ''/'' # r)"
  proof
    assume a: "c = q @ us \<and> us @ CHR ''/'' # J = CHR ''/'' # r"
    show ?thesis
    proof (cases us)
      case Nil with a show ?thesis by simp
    next
      case (Cons u us')
      with a have "u = CHR ''/''" by simp
      with a Cons assms show ?thesis by simp
    qed
  next
    assume a: "c @ us = q \<and> CHR ''/'' # J = us @ CHR ''/'' # r"
    show ?thesis
    proof (cases us)
      case Nil with a show ?thesis by simp
    next
      case (Cons u us')
      with a show ?thesis by auto
    qed
  qed
next
  assume "(q = c \<and> r = J) \<or> (\<exists>q'. q = c @ CHR ''/'' # q' \<and> J = q' @ CHR ''/'' # r)"
  then show "c @ CHR ''/'' # J = q @ CHR ''/'' # r" by auto
qed

lemma fold_ancestor_step:
  assumes "cs \<noteq> []" and "\<forall>c\<in>set cs. CHR ''/'' \<notin> set c"
  shows "set (snd (fold (ancestor_step (acc @ join_slash cs)) cs (acc, ps)))
       = set ps \<union> {acc @ q | q r. join_slash cs = q @ CHR ''/'' # r}"
  using assms
proof (induction cs arbitrary: acc ps rule: join_slash.induct)
  case 1
  then show ?case by simp
next
  case (2 c)
  then have "\<And>q r. c \<noteq> q @ CHR ''/'' # r" by auto
  then show ?case by (simp add: ancestor_step_def)
next
  case (3 c d cs)
  let ?J = "join_slash (d # cs)"
  have ne: "acc @ c \<noteq> acc @ c @ CHR ''/'' # ?J" by simp
  have step: "ancestor_step (acc @ join_slash (c # d # cs)) c (acc, ps) = (acc @ c @ ''/'', ps @ [acc @ c])"
    using ne by (simp add: ancestor_step_def)
  have pp: "acc @ join_slash (c # d # cs) = (acc @ c @ ''/'') @ ?J" by simp
  have ih: "set (snd (fold (ancestor_step ((acc @ c @ ''/'') @ ?J)) (d # cs) (acc @ c @ ''/'', ps @ [acc @ c])))
       = set (ps @ [acc @ c]) \<union> {(acc @ c @ ''/'') @ q | q r. ?J = q @ CHR ''/'' # r}"
    using "3.prems" by (intro "3.IH") simp_all
  have c: "CHR ''/'' \<notin> set c" using "3.prems" by simp
  have "{acc @ q | q r. join_slash (c # d # cs) = q @ CHR ''/'' # r}
      = {acc @ c} \<union> {(acc @ c @ ''/'') @ q | q r. ?J = q @ CHR ''/'' # r}"
    using boundary_split[OF c, of ?J] by auto
  moreover have "fold (ancestor_step (acc @ join_slash (c # d # cs))) (c # d # cs) (acc, ps)
      = fold (ancestor_step ((acc @ c @ ''/'') @ ?J)) (d # cs) (acc @ c @ ''/'', ps @ [acc @ c])"
    using step pp by (simp del: join_slash.simps append_assoc)
  ultimately show ?case using ih by auto
qed

lemma set_ancestorPaths_ex: "set (ancestorPaths p) = {q. \<exists>r. p = q @ CHR ''/'' # r}"
proof -
  let ?cs = "js_split CHR ''/'' p"
  have "set (snd (fold (ancestor_step ([] @ join_slash ?cs)) ?cs ([], [])))
       = set [] \<union> {[] @ q | q r. join_slash ?cs = q @ CHR ''/'' # r}"
    by (rule fold_ancestor_step) (auto simp add: js_split_nonempty dest: js_split_no_sep)
  then show ?thesis by (simp add: ancestorPaths_def join_js_split)
qed


lemma prefix_slash_iff: "prefix (q @ ''/'') p \<longleftrightarrow> (\<exists>r. p = q @ CHR ''/'' # r)"
  by (auto simp add: prefix_def)

lemma set_ancestorPaths: "set (ancestorPaths p) = {q. prefix (q @ ''/'') p}"
  by (simp add: set_ancestorPaths_ex prefix_slash_iff)

lemma less_append_Cons: "xs < xs @ y # ys" for xs :: string
  by (simp add: list_less_def lexord_append_rightI)

lemma ancestors_ordered:
  assumes a: "prefix (a @ ''/'') p" and b: "prefix (b @ ''/'') p" and lt: "a < b"
  shows "prefix (a @ ''/'') b"
proof -
  from a obtain ra where ra: "p = a @ CHR ''/'' # ra" by (auto simp add: prefix_def)
  from b obtain rb where rb: "p = b @ CHR ''/'' # rb" by (auto simp add: prefix_def)
  from ra rb have "a @ CHR ''/'' # ra = b @ CHR ''/'' # rb" by simp
  then obtain us where "(a = b @ us \<and> us @ CHR ''/'' # ra = CHR ''/'' # rb)
      \<or> (a @ us = b \<and> CHR ''/'' # ra = us @ CHR ''/'' # rb)"
    by (auto simp add: append_eq_append_conv2)
  then show ?thesis
  proof
    assume c: "a = b @ us \<and> us @ CHR ''/'' # ra = CHR ''/'' # rb"
    show ?thesis
    proof (cases us)
      case Nil with c lt show ?thesis by simp
    next
      case (Cons u us')
      with c have "b < a" using less_append_Cons[of b u us'] by simp
      with lt show ?thesis by simp
    qed
  next
    assume c: "a @ us = b \<and> CHR ''/'' # ra = us @ CHR ''/'' # rb"
    show ?thesis
    proof (cases us)
      case Nil with c lt show ?thesis by simp
    next
      case (Cons u us')
      with c have "u = CHR ''/''" by simp
      with c Cons show ?thesis by (auto simp add: prefix_def)
    qed
  qed
qed

lemma depth_less:
  assumes "prefix (a @ ''/'') b"
  shows "count_list a CHR ''/'' < count_list b CHR ''/''"
proof -
  from assms obtain r where "b = a @ CHR ''/'' # r" by (auto simp add: prefix_def)
  then show ?thesis by simp
qed

text \<open>
  C6. For a page with a non-empty path, on a store whose paths are unique (the index
  of \<open>pathIndex\<close>), \<open>getAncestors\<close> answers with the stored pages whose path, followed
  by a slash, starts the path of the page, each once; the page itself is not among them.
  They come in a chain from the shortest path on: the path of each, followed by a slash,
  starts the path of every later one. When the levels follow the paths, the levels in
  the answer are strictly increasing and all below the level of the page.
\<close>

theorem getAncestors_chain:
  assumes "path pg \<noteq> []" and "distinct (map path store)"
  shows "\<exists>as. getAncestors pg root store = Some as
      \<and> set as = set_url root ` {p \<in> set store. prefix (path p @ ''/'') (path pg)}
      \<and> distinct (map path as)
      \<and> sorted_wrt (\<lambda>a b. prefix (path a @ ''/'') (path b)) as
      \<and> (\<forall>a\<in>set as. path a \<noteq> path pg)
      \<and> (levels_by_depth c (pg # store)
           \<longrightarrow> sorted_wrt (\<lambda>a b. level a < level b) as \<and> (\<forall>a\<in>set as. level a < level pg))"
proof -
  let ?F = "filter (\<lambda>p. path p \<in> set (ancestorPaths (path pg))) store"
  let ?S = "sort_key path ?F"
  let ?as = "map (set_url root) ?S"
  have g: "getAncestors pg root store = Some ?as" using assms(1) by (simp add: getAncestors_def)
  have pu: "\<And>p. path (set_url root p) = path p" and lu: "\<And>p. level (set_url root p) = level p"
    by (simp_all add: set_url_def)
  have mp: "map path ?as = map path ?S" by (simp add: pu comp_def)
  have setS: "set ?S = {p \<in> set store. prefix (path p @ ''/'') (path pg)}"
    by (auto simp add: set_ancestorPaths)
  have A: "set ?as = set_url root ` {p \<in> set store. prefix (path p @ ''/'') (path pg)}"
    using setS by simp
  have dF: "distinct (map path ?F)" using assms(2) by (rule distinct_map_filter)
  have dS: "distinct (map path ?S)"
    using dF by (simp add: map_sort_key)
  have B: "distinct (map path ?as)" unfolding mp by (rule dS)
  have "sorted (map path ?S)" by simp
  with dS have "sorted_wrt (<) (map path ?S)" by (simp add: strict_sorted_iff)
  then have lt: "sorted_wrt (\<lambda>a b. path a < path b) ?S" by (simp add: sorted_wrt_map)
  have chainS: "sorted_wrt (\<lambda>a b. prefix (path a @ ''/'') (path b)) ?S"
  proof (rule sorted_wrt_mono_rel[OF _ lt])
    fix a b assume "a \<in> set ?S" "b \<in> set ?S" "path a < path b"
    with setS show "prefix (path a @ ''/'') (path b)"
      using ancestors_ordered[of "path a" "path pg" "path b"] by simp
  qed
  then have C: "sorted_wrt (\<lambda>a b. prefix (path a @ ''/'') (path b)) ?as"
    by (simp add: sorted_wrt_map pu)
  have D: "\<forall>a\<in>set ?as. path a \<noteq> path pg"
  proof
    fix a assume "a \<in> set ?as"
    then obtain p where p: "p \<in> set ?S" "a = set_url root p" by auto
    with setS have "prefix (path p @ ''/'') (path pg)" by simp
    then have "length (path p @ ''/'') \<le> length (path pg)" by (rule prefix_length_le)
    then have "path p \<noteq> path pg" by auto
    with p show "path a \<noteq> path pg" by (simp add: pu)
  qed
  have E: "levels_by_depth c (pg # store)
           \<longrightarrow> sorted_wrt (\<lambda>a b. level a < level b) ?as \<and> (\<forall>a\<in>set ?as. level a < level pg)"
  proof
    assume inv: "levels_by_depth c (pg # store)"
    then have lv: "\<And>p. p \<in> set (pg # store) \<Longrightarrow> level p = c + int (count_list (path p) CHR ''/'')"
      by (auto simp add: levels_by_depth_def list_all_iff)
    have "sorted_wrt (\<lambda>a b. level a < level b) ?S"
    proof (rule sorted_wrt_mono_rel[OF _ chainS])
      fix a b assume "a \<in> set ?S" "b \<in> set ?S" "prefix (path a @ ''/'') (path b)"
      with setS lv[of a] lv[of b] depth_less[of "path a" "path b"]
      show "level a < level b" by simp
    qed
    then have 1: "sorted_wrt (\<lambda>a b. level a < level b) ?as" by (simp add: sorted_wrt_map lu)
    have 2: "\<forall>a\<in>set ?as. level a < level pg"
    proof
      fix a assume "a \<in> set ?as"
      then obtain p where p: "p \<in> set ?S" "a = set_url root p" by auto
      with setS lv[of p] lv[of pg] depth_less[of "path p" "path pg"]
      show "level a < level pg" by (simp add: lu)
    qed
    from 1 2 show "sorted_wrt (\<lambda>a b. level a < level b) ?as \<and> (\<forall>a\<in>set ?as. level a < level pg)" ..
  qed
  from g A B C D E show ?thesis by blast
qed


theorem getAncestors_chain_witness:
  "path (demo_pages ! 3) \<noteq> []
   \<and> distinct (map path demo_pages)
   \<and> levels_by_depth 0 (demo_pages ! 3 # demo_pages)
   \<and> getAncestors (demo_pages ! 3) [] demo_pages
       = Some [(mk_page ''/'' ''home'' 0 0)\<lparr>url := Some ''/''\<rparr>,
               (mk_page ''/about'' ''home/about'' 1 1)\<lparr>url := Some ''/about''\<rparr>]
   \<and> sorted_wrt (\<lambda>a b. level a < level b) (the (getAncestors (demo_pages ! 3) [] demo_pages))
   \<and> sorted_wrt (\<lambda>a b. prefix (path a @ ''/'') (path b))
        (the (getAncestors (demo_pages ! 3) [] demo_pages))"
proof -
  have 1: "path (demo_pages ! 3) \<noteq> []" by code_simp
  have 2: "distinct (map path demo_pages)" by code_simp
  have 3: "levels_by_depth 0 (demo_pages ! 3 # demo_pages)" by code_simp
  have 4: "getAncestors (demo_pages ! 3) [] demo_pages
       = Some [(mk_page ''/'' ''home'' 0 0)\<lparr>url := Some ''/''\<rparr>,
               (mk_page ''/about'' ''home/about'' 1 1)\<lparr>url := Some ''/about''\<rparr>]"
    by code_simp
  from getAncestors_chain[OF 1 2, of "[]" 0] 3 obtain as where
    as: "getAncestors (demo_pages ! 3) [] demo_pages = Some as"
      "sorted_wrt (\<lambda>a b. prefix (path a @ ''/'') (path b)) as"
      "sorted_wrt (\<lambda>a b. level a < level b) as"
    by blast
  then have 5: "sorted_wrt (\<lambda>a b. level a < level b) (the (getAncestors (demo_pages ! 3) [] demo_pages))"
    and 6: "sorted_wrt (\<lambda>a b. prefix (path a @ ''/'') (path b))
        (the (getAncestors (demo_pages ! 3) [] demo_pages))"
    by simp_all
  show ?thesis by (intro conjI) (fact 1 2 3 4 5 6)+
qed


subsection \<open>The loop of getDescendants\<close>

lemma lastIndexOf_le: "lastIndexOf s c \<le> int (length s) - 1"
  by (simp add: lastIndexOf_def)

lemma length_parentPath: "p \<noteq> [] \<Longrightarrow> length (parentPath p) < length p"
  using lastIndexOf_le[of p "CHR ''/''"]
  by (cases p) (auto simp add: parentPath_def substr0_def)

lemma parentPath_neq: "p \<noteq> [] \<Longrightarrow> parentPath p \<noteq> p"
  using length_parentPath by fastforce

lemma parentPath_decomp:
  assumes "CHR ''/'' \<in> set p"
  shows "\<exists>rest. p = parentPath p @ CHR ''/'' # rest \<and> CHR ''/'' \<notin> set rest"
proof -
  let ?t = "takeWhile (\<lambda>x. x \<noteq> CHR ''/'') (rev p)"
  let ?d = "dropWhile (\<lambda>x. x \<noteq> CHR ''/'') (rev p)"
  have "?d \<noteq> []" using assms by (simp add: dropWhile_eq_Nil_conv)
  moreover have "hd ?d = CHR ''/''" using hd_dropWhile[of "\<lambda>x. x \<noteq> CHR ''/''" "rev p"] \<open>?d \<noteq> []\<close> by simp
  ultimately obtain r where r: "?d = CHR ''/'' # r" by (cases ?d) auto
  have "rev p = ?t @ ?d" by simp
  then have "p = rev ?d @ rev ?t" by (metis rev_append rev_rev_ident)
  with r have p: "p = rev r @ CHR ''/'' # rev ?t" by simp
  have lt: "length ?t + 1 + length r = length p"
    using arg_cong[OF p, of length] by simp
  have "nat (int (length p) - 1 - int (length ?t)) = length r" using lt by linarith
  then have "parentPath p = take (length r) p"
    using assms by (simp add: parentPath_def substr0_def lastIndexOf_def)
  also have "\<dots> = rev r" by (subst p) simp
  finally have pp: "parentPath p = rev r" .
  have "CHR ''/'' \<notin> set (rev ?t)" using set_takeWhileD[of "CHR ''/''" "\<lambda>x. x \<noteq> CHR ''/''" "rev p"] by auto
  with p pp show ?thesis by metis
qed

lemma parentPath_append:
  assumes "CHR ''/'' \<notin> set seg"
  shows "parentPath (a @ CHR ''/'' # seg) = a"
proof -
  have "takeWhile (\<lambda>x. x \<noteq> CHR ''/'') (rev (a @ CHR ''/'' # seg)) = rev seg"
    using assms by (auto simp add: takeWhile_append2 takeWhile_tail)
  then show ?thesis by (simp add: parentPath_def substr0_def lastIndexOf_def)
qed

text \<open>
  The parent path of a path, in terms of segments: the path is its parent path, a
  slash and a segment without slash.
\<close>

lemma parentPath_segment:
  assumes "CHR ''/'' \<in> set p"
  shows "q = parentPath p \<longleftrightarrow> (\<exists>seg. p = q @ CHR ''/'' # seg \<and> CHR ''/'' \<notin> set seg)"
  using parentPath_decomp[OF assms] parentPath_append by metis

lemma prototype_names_no_slash:
  assumes "n \<in> set object_prototype_names"
  shows "CHR ''/'' \<notin> set n"
proof -
  have "list_all (\<lambda>n. CHR ''/'' \<notin> set n) object_prototype_names" by code_simp
  with assms show ?thesis by (simp add: list_all_iff)
qed

lemma nest_step_place:
  "nest_step ip g =
     (if pagesByPath (g\<lparr>pagesByPath := (pagesByPath g)(path (snd ip) \<mapsto> fst ip)\<rparr>)
           (parentPath (path (snd ip))) = None
         \<and> parentPath (path (snd ip)) \<in> set object_prototype_names
      then Inl TypeError else Inr (place ip g))"
  by (simp add: nest_step_def place_def Let_def split: option.splits)

lemma nest_loop_place:
  "\<forall>ip\<in>set ips. parentPath (path (snd ip)) \<notin> set object_prototype_names
     \<Longrightarrow> nest_loop ips g = Inr (fold place ips g)"
  by (induction ips arbitrary: g) (simp_all add: nest_step_place)

lemma dom_place:
  "dom (pagesByPath (place ip g)) = insert (path (snd ip)) (dom (pagesByPath g))"
  by (auto simp add: place_def Let_def split: option.splits)

lemma nest_loop_throws:
  assumes "\<forall>s\<in>dom (pagesByPath g). CHR ''/'' \<in> set s"
    and "\<forall>ip\<in>set ips. CHR ''/'' \<in> set (path (snd ip))"
    and "\<exists>ip\<in>set ips. parentPath (path (snd ip)) \<in> set object_prototype_names"
  shows "nest_loop ips g = Inl TypeError"
  using assms
proof (induction ips arbitrary: g)
  case Nil
  then show ?case by simp
next
  case (Cons ip ips)
  let ?pp = "parentPath (path (snd ip))"
  show ?case
  proof (cases "?pp \<in> set object_prototype_names")
    case True
    then have ns: "CHR ''/'' \<notin> set ?pp" by (rule prototype_names_no_slash)
    with Cons.prems(2) have "?pp \<noteq> path (snd ip)" by auto
    moreover from ns Cons.prems(1) have "pagesByPath g ?pp = None" by (cases "pagesByPath g ?pp") auto
    ultimately show ?thesis using True by (simp add: nest_step_place)
  next
    case False
    then have st: "nest_step ip g = Inr (place ip g)" by (simp add: nest_step_place)
    have "nest_loop ips (place ip g) = Inl TypeError"
    proof (rule Cons.IH)
      show "\<forall>s\<in>dom (pagesByPath (place ip g)). CHR ''/'' \<in> set s"
        using Cons.prems(1,2) by (simp add: dom_place)
      show "\<forall>ip\<in>set ips. CHR ''/'' \<in> set (path (snd ip))" using Cons.prems(2) by simp
      show "\<exists>ip\<in>set ips. parentPath (path (snd ip)) \<in> set object_prototype_names"
        using Cons.prems(3) False by auto
    qed
    with st show ?thesis by simp
  qed
qed

lemma nest_upto_0: "nest_upto ps 0 = \<lparr>nodes = ps, children = [], pagesByPath = Map.empty, kids = (\<lambda>_. [])\<rparr>"
  by (simp add: nest_upto_def)

lemma nest_upto_Suc:
  "k < length ps \<Longrightarrow> nest_upto ps (Suc k) = place (k, ps ! k) (nest_upto ps k)"
  by (simp add: nest_upto_def take_Suc_conv_app_nth enumerate_append_eq)

text \<open>The loop ends without an exception when no parent path is an inherited name.\<close>

lemma nest_no_throw:
  assumes "\<forall>p\<in>set ps. parentPath (path p) \<notin> set object_prototype_names"
  shows "nest ps = Inr (nest_upto ps (length ps))"
proof -
  have "\<forall>ip\<in>set (enumerate 0 ps). parentPath (path (snd ip)) \<notin> set object_prototype_names"
    using assms by (auto simp add: in_set_enumerate_eq)
  then show ?thesis by (simp add: nest_def nest_upto_def nest_loop_place)
qed

lemma nest_throws:
  assumes "\<forall>p\<in>set ps. CHR ''/'' \<in> set (path p)"
    and "\<exists>p\<in>set ps. parentPath (path p) \<in> set object_prototype_names"
  shows "nest ps = Inl TypeError"
proof -
  from assms(2) obtain p where p: "p \<in> set ps" "parentPath (path p) \<in> set object_prototype_names"
    by blast
  from p(1) obtain k where "k < length ps" "ps ! k = p" by (metis in_set_conv_nth)
  with p(2) have k: "k < length ps" "parentPath (path (ps ! k)) \<in> set object_prototype_names"
    by simp_all
  then have "(k, ps ! k) \<in> set (enumerate 0 ps)" by (simp add: in_set_enumerate_eq)
  with k(2) have ex: "\<exists>ip\<in>set (enumerate 0 ps). parentPath (path (snd ip)) \<in> set object_prototype_names"
    by force
  have all: "\<forall>ip\<in>set (enumerate 0 ps). CHR ''/'' \<in> set (path (snd ip))"
    using assms(1) by (auto simp add: in_set_enumerate_eq)
  show ?thesis unfolding nest_def by (rule nest_loop_throws[OF _ all ex]) simp
qed

lemma descendantQuery_set:
  "set (descendantQuery pg d store)
     = {p \<in> set store. prefix (path pg @ ''/'') (path p) \<and> level pg < level p
                       \<and> level p \<le> js_plus (level pg) d}"
  by (auto simp add: descendantQuery_def)

lemma descendantQuery_path:
  "p \<in> set (descendantQuery pg depth store) \<Longrightarrow> prefix (path pg @ ''/'') (path p)"
  by (simp add: descendantQuery_set)

lemma set_url_fields [simp]:
  "path (set_url root p) = path p" "level (set_url root p) = level p"
  "rank (set_url root p) = rank p" "slug (set_url root p) = slug p"
  by (simp_all add: set_url_def)

text \<open>
  The parent path of a page under \<open>pg\<close> is the path of \<open>pg\<close> or is itself a path under
  \<open>pg\<close>.
\<close>

lemma parent_of_descendant:
  assumes "prefix (a @ ''/'') p"
  shows "parentPath p = a \<or> prefix (a @ ''/'') (parentPath p)"
proof -
  from assms obtain rest where rest: "p = a @ CHR ''/'' # rest" by (auto simp add: prefix_def)
  then have "CHR ''/'' \<in> set p" by simp
  from parentPath_decomp[OF this] obtain seg where
    seg: "p = parentPath p @ CHR ''/'' # seg" "CHR ''/'' \<notin> set seg" by blast
  from rest seg(1) have "a @ CHR ''/'' # rest = parentPath p @ CHR ''/'' # seg" by simp
  then obtain us where "(a = parentPath p @ us \<and> us @ CHR ''/'' # rest = CHR ''/'' # seg)
      \<or> (a @ us = parentPath p \<and> CHR ''/'' # rest = us @ CHR ''/'' # seg)"
    by (auto simp add: append_eq_append_conv2)
  then show ?thesis
  proof
    assume c: "a = parentPath p @ us \<and> us @ CHR ''/'' # rest = CHR ''/'' # seg"
    show ?thesis
    proof (cases us)
      case Nil with c show ?thesis by simp
    next
      case (Cons u us')
      with c have "seg = us' @ CHR ''/'' # rest" by simp
      with seg(2) show ?thesis by simp
    qed
  next
    assume c: "a @ us = parentPath p \<and> CHR ''/'' # rest = us @ CHR ''/'' # seg"
    show ?thesis
    proof (cases us)
      case Nil with c show ?thesis by simp
    next
      case (Cons u us')
      with c have "u = CHR ''/''" by simp
      with c Cons have "parentPath p = (a @ ''/'') @ us'" by auto
      then show ?thesis by (metis prefixI)
    qed
  qed
qed

lemma query_parent_not_inherited:
  assumes "path pg \<notin> set object_prototype_names"
    and "p \<in> set (map (set_url root) (descendantQuery pg d store))"
  shows "parentPath (path p) \<notin> set object_prototype_names"
proof
  assume a: "parentPath (path p) \<in> set object_prototype_names"
  from assms(2) have "prefix (path pg @ ''/'') (path p)"
    by (auto simp add: descendantQuery_set)
  from parent_of_descendant[OF this] assms(1) a
  have "prefix (path pg @ ''/'') (parentPath (path p))" by auto
  then have "CHR ''/'' \<in> set (parentPath (path p))" by (auto simp add: prefix_def)
  with prototype_names_no_slash[OF a] show False by simp
qed

text \<open>
  \<open>getDescendants\<close> throws exactly when the path of the page is an inherited name
  and the query finds a page whose parent path it is.
\<close>

lemma getDescendants_throws_iff:
  "getDescendants pg root depth store = Inl err
     \<longleftrightarrow> err = TypeError \<and> path pg \<in> set object_prototype_names
         \<and> (\<exists>p\<in>set (descendantQuery pg (case depth of None \<Rightarrow> 1 | Some d \<Rightarrow> d) store).
               parentPath (path p) = path pg)"
proof -
  let ?d = "case depth of None \<Rightarrow> 1 | Some d \<Rightarrow> d"
  let ?ps = "map (set_url root) (descendantQuery pg ?d store)"
  have g: "getDescendants pg root depth store = nest ?ps" by (simp add: getDescendants_def)
  have sl: "\<forall>p\<in>set ?ps. CHR ''/'' \<in> set (path p)"
    by (auto simp add: descendantQuery_set prefix_def)
  show ?thesis
  proof (cases "path pg \<in> set object_prototype_names
         \<and> (\<exists>p\<in>set (descendantQuery pg ?d store). parentPath (path p) = path pg)")
    case True
    then obtain p where p: "p \<in> set (descendantQuery pg ?d store)" "parentPath (path p) = path pg"
      by blast
    then have "set_url root p \<in> set ?ps" by simp
    moreover have "parentPath (path (set_url root p)) \<in> set object_prototype_names"
      using p(2) True by simp
    ultimately have "\<exists>p\<in>set ?ps. parentPath (path p) \<in> set object_prototype_names" by blast
    from nest_throws[OF sl this] g True show ?thesis by auto
  next
    case False
    have "\<forall>p\<in>set ?ps. parentPath (path p) \<notin> set object_prototype_names"
    proof (intro ballI notI)
      fix p assume p: "p \<in> set ?ps" and a: "parentPath (path p) \<in> set object_prototype_names"
      from p have pre: "prefix (path pg @ ''/'') (path p)" by (auto simp add: descendantQuery_set)
      from parent_of_descendant[OF pre] have "parentPath (path p) = path pg"
      proof
        assume "prefix (path pg @ ''/'') (parentPath (path p))"
        then have "CHR ''/'' \<in> set (parentPath (path p))" by (auto simp add: prefix_def)
        with prototype_names_no_slash[OF a] show ?thesis by simp
      qed simp
      with a p False show False by auto
    qed
    from nest_no_throw[OF this] g False show ?thesis by auto
  qed
qed

lemma getDescendants_no_throw:
  assumes "path pg \<notin> set object_prototype_names"
  shows "getDescendants pg root depth store
       = Inr (nest_upto (map (set_url root)
                (descendantQuery pg (case depth of None \<Rightarrow> 1 | Some d \<Rightarrow> d) store))
              (length (descendantQuery pg (case depth of None \<Rightarrow> 1 | Some d \<Rightarrow> d) store)))"
proof -
  let ?ps = "map (set_url root) (descendantQuery pg (case depth of None \<Rightarrow> 1 | Some d \<Rightarrow> d) store)"
  have "\<forall>p\<in>set ?ps. parentPath (path p) \<notin> set object_prototype_names"
    using query_parent_not_inherited[OF assms] by blast
  from nest_no_throw[OF this] show ?thesis by (simp add: getDescendants_def)
qed

lemma children_place:
  "children (place ip g) = children g \<or> children (place ip g) = children g @ [fst ip]"
  by (simp add: place_def Let_def split: option.splits)

lemma children_fold_mono:
  "set (children g) \<subseteq> set (children (fold place ips g))"
proof (induction ips arbitrary: g)
  case Nil show ?case by simp
next
  case (Cons ip ips)
  have "set (children g) \<subseteq> set (children (place ip g))"
    using children_place[of ip g] by auto
  with Cons[of "place ip g"] show ?case by auto
qed

lemma children_nest_upto:
  "children (nest_upto ps (length ps)) \<noteq> [] \<longleftrightarrow> ps \<noteq> []" if "\<forall>p\<in>set ps. path p \<noteq> []"
proof (cases ps)
  case Nil
  then show ?thesis by (simp add: nest_upto_def)
next
  case (Cons p ps')
  let ?g0 = "\<lparr>nodes = p # ps', children = [], pagesByPath = Map.empty, kids = (\<lambda>_. [])\<rparr>"
  from that Cons have "path p \<noteq> []" by simp
  then have "children (place (0, p) ?g0) = [0]"
    using parentPath_neq[of "path p"] by (simp add: place_def Let_def)
  moreover have "nest_upto (p # ps') (length (p # ps')) = fold place (enumerate 1 ps') (place (0, p) ?g0)"
    by (simp add: nest_upto_def)
  ultimately have "children (nest_upto (p # ps') (length (p # ps'))) \<noteq> []"
    using children_fold_mono[of "place (0, p) ?g0" "enumerate 1 ps'"] by auto
  with Cons show ?thesis by simp
qed

text \<open>
  When \<open>getDescendants\<close> returns, the returned array is empty exactly when the query
  found no page.
\<close>

lemma children_getDescendants:
  assumes "getDescendants pg root depth store = Inr g"
  shows "children g \<noteq> []
     \<longleftrightarrow> descendantQuery pg (case depth of None \<Rightarrow> 1 | Some d \<Rightarrow> d) store \<noteq> []"
proof -
  let ?ps = "map (set_url root) (descendantQuery pg (case depth of None \<Rightarrow> 1 | Some d \<Rightarrow> d) store)"
  have np: "\<forall>p\<in>set ?ps. parentPath (path p) \<notin> set object_prototype_names"
  proof (rule ccontr)
    assume "\<not> (\<forall>p\<in>set ?ps. parentPath (path p) \<notin> set object_prototype_names)"
    then have ex: "\<exists>p\<in>set ?ps. parentPath (path p) \<in> set object_prototype_names" by blast
    have sl: "\<forall>p\<in>set ?ps. CHR ''/'' \<in> set (path p)"
      by (auto simp add: descendantQuery_set prefix_def)
    from nest_throws[OF sl ex] assms show False by (simp add: getDescendants_def)
  qed
  from nest_no_throw[OF np] assms have g: "g = nest_upto ?ps (length ?ps)"
    by (simp add: getDescendants_def)
  have "\<forall>p\<in>set ?ps. path p \<noteq> []" by (auto simp add: descendantQuery_set prefix_def)
  from children_nest_upto[OF this] g show ?thesis by simp
qed


subsection \<open>The delete handler\<close>

text \<open>
  C2. The permission step of the delete handler runs before \<open>getParent\<close> has assigned
  \<open>parent\<close>, so the subject of the \<open>add-page\<close> check is \<open>undefined\<close>, never the
  parent: the outcome of a delete does not depend on what the collaborator answers
  for any page, and a delete goes through although \<open>add-page\<close> is refused on the
  parent.
\<close>

theorem delete_checks_no_parent:
  "delete_handler
     (e\<lparr>permissions :=
          (\<lambda>r a subject. case subject of None \<Rightarrow> permissions e r a None | Some p \<Rightarrow> f r a p)\<rparr>)
     req d
     = delete_handler e req d
   \<and> \<not> permissions guarded_env (demo_request\<lparr>b_slug := ''/contact''\<rparr>) ''add-page''
         (Some (mk_page ''/'' ''home'' 0 0))
   \<and> delete_handler guarded_env (demo_request\<lparr>b_slug := ''/contact''\<rparr>) demo_db
       = (Inr ''/'',
          demo_db\<lparr>pages := [mk_page ''/'' ''home'' 0 0, mk_page ''/about'' ''home/about'' 1 1,
                             mk_page ''/about/team'' ''home/about/team'' 2 1]\<rparr>)"
proof -
  have a: "delete_handler
     (e\<lparr>permissions :=
          (\<lambda>r a subject. case subject of None \<Rightarrow> permissions e r a None | Some p \<Rightarrow> f r a p)\<rparr>)
     req d
     = delete_handler e req d"
    by (simp add: delete_handler_def split: option.splits)
  have b: "\<not> permissions guarded_env (demo_request\<lparr>b_slug := ''/contact''\<rparr>) ''add-page''
         (Some (mk_page ''/'' ''home'' 0 0))"
    by (simp add: guarded_env_def)
  have c: "delete_handler guarded_env (demo_request\<lparr>b_slug := ''/contact''\<rparr>) demo_db
       = (Inr ''/'',
          demo_db\<lparr>pages := [mk_page ''/'' ''home'' 0 0, mk_page ''/about'' ''home/about'' 1 1,
                             mk_page ''/about/team'' ''home/about/team'' 2 1]\<rparr>)"
    by code_simp
  from a b c show ?thesis by blast
qed

text \<open>A page with an ancestor has a slash in its path, so its path is no inherited name.\<close>

lemma ancestors_slash:
  assumes "getAncestors pg root store = Some as" and "as \<noteq> []"
  shows "CHR ''/'' \<in> set (path pg)"
proof -
  from assms(1) have "as = map (set_url root)
      (sort_key path (filter (\<lambda>p. path p \<in> set (ancestorPaths (path pg))) store))"
    by (simp add: getAncestors_def split: if_splits)
  with assms(2) have "filter (\<lambda>p. path p \<in> set (ancestorPaths (path pg))) store \<noteq> []"
    by auto
  then obtain p :: page where "path p \<in> set (ancestorPaths (path pg))"
    by (auto simp add: filter_empty_conv)
  then have "prefix (path p @ ''/'') (path pg)" by (simp add: set_ancestorPaths)
  then show ?thesis by (auto simp add: prefix_def)
qed

lemma descendants_of_page_with_ancestor:
  assumes "getAncestors pg root store = Some as" and "as \<noteq> []"
  shows "\<exists>g. getDescendants pg root' depth store' = Inr g"
proof -
  from ancestors_slash[OF assms] prototype_names_no_slash[of "path pg"]
  have "path pg \<notin> set object_prototype_names" by blast
  from getDescendants_no_throw[OF this] show ?thesis by blast
qed

text \<open>
  C7, as the claim states it, fails on the home page: a delete of the home page of
  the sample site, which has children, is answered with \<open>Cannot remove home page\<close>,
  not with \<open>Remove child pages first\<close>.
\<close>

theorem delete_root_with_children_counterexample:
  "getPage ''/'' (pages demo_db) = Some (mk_page ''/'' ''home'' 0 0)
   \<and> descendantQuery (mk_page ''/'' ''home'' 0 0) 1 (pages demo_db) \<noteq> []
   \<and> delete_handler demo_env (demo_request\<lparr>b_slug := ''/''\<rparr>) demo_db
       = (Inl HomePage, demo_db)"
  by code_simp

text \<open>
  C7, amended. A delete of a stored page with at least one depth-1 descendant always
  fails and leaves the store unchanged. The error is the permission error when the
  permission check refuses; when it agrees, the error is \<open>Cannot remove home page\<close>
  for a page whose list of ancestors is empty, and \<open>Remove child pages first\<close> for
  a page that has an ancestor.
\<close>

theorem delete_with_children_fails:
  assumes "getPage (b_slug req) (pages d) = Some pg"
    and "descendantQuery pg 1 (pages d) \<noteq> []"
  shows "(\<exists>err. delete_handler e req d = (Inl err, d))
       \<and> (permissions e req ''add-page'' None
            \<and> getAncestors pg [] (pages d) \<noteq> None
            \<and> getAncestors pg [] (pages d) \<noteq> Some []
          \<longrightarrow> delete_handler e req d = (Inl HasChildren, d))
       \<and> (\<not> permissions e req ''add-page'' None
          \<longrightarrow> delete_handler e req d = (Inl PermissionDenied, d))
       \<and> (permissions e req ''add-page'' None \<and> getAncestors pg [] (pages d) = Some []
          \<longrightarrow> delete_handler e req d = (Inl HomePage, d))"
proof -
  have refused: "\<not> permissions e req ''add-page'' None
          \<longrightarrow> delete_handler e req d = (Inl PermissionDenied, d)"
    using assms(1) by (simp add: delete_handler_def)
  have home: "permissions e req ''add-page'' None \<and> getAncestors pg [] (pages d) = Some []
          \<longrightarrow> delete_handler e req d = (Inl HomePage, d)"
    using assms(1) by (simp add: delete_handler_def)
  have nopath: "permissions e req ''add-page'' None \<and> getAncestors pg [] (pages d) = None
          \<longrightarrow> delete_handler e req d = (Inl TypeError, d)"
    using assms(1) by (simp add: delete_handler_def)
  have kids: "permissions e req ''add-page'' None
            \<and> getAncestors pg [] (pages d) \<noteq> None
            \<and> getAncestors pg [] (pages d) \<noteq> Some []
          \<longrightarrow> delete_handler e req d = (Inl HasChildren, d)"
  proof
    assume h: "permissions e req ''add-page'' None
            \<and> getAncestors pg [] (pages d) \<noteq> None
            \<and> getAncestors pg [] (pages d) \<noteq> Some []"
    then obtain as where as: "getAncestors pg [] (pages d) = Some as" "as \<noteq> []" by auto
    from descendants_of_page_with_ancestor[OF as] obtain g where
      g: "getDescendants pg [] (Some 1) (pages d) = Inr g" by blast
    from children_getDescendants[OF g] assms(2) have "children g \<noteq> []" by simp
    with assms(1) h as g show "delete_handler e req d = (Inl HasChildren, d)"
      by (simp add: delete_handler_def)
  qed
  have any: "\<exists>err. delete_handler e req d = (Inl err, d)"
  proof (cases "permissions e req ''add-page'' None")
    case False
    with refused show ?thesis by blast
  next
    case True
    show ?thesis
    proof (cases "getAncestors pg [] (pages d)")
      case None
      with True nopath show ?thesis by blast
    next
      case (Some as)
      with True home kids show ?thesis by (cases "as = []") auto
    qed
  qed
  from any kids refused home show ?thesis by (intro conjI)
qed

theorem delete_with_children_fails_witness:
  "getPage (b_slug (demo_request\<lparr>b_slug := ''/about''\<rparr>)) (pages demo_db)
     = Some (mk_page ''/about'' ''home/about'' 1 1)
   \<and> descendantQuery (mk_page ''/about'' ''home/about'' 1 1) 1 (pages demo_db) \<noteq> []
   \<and> permissions demo_env (demo_request\<lparr>b_slug := ''/about''\<rparr>) ''add-page'' None
   \<and> getAncestors (mk_page ''/about'' ''home/about'' 1 1) [] (pages demo_db) \<noteq> None
   \<and> getAncestors (mk_page ''/about'' ''home/about'' 1 1) [] (pages demo_db) \<noteq> Some []
   \<and> delete_handler demo_env (demo_request\<lparr>b_slug := ''/about''\<rparr>) demo_db
       = (Inl HasChildren, demo_db)
   \<and> \<not> permissions closed_env (demo_request\<lparr>b_slug := ''/about''\<rparr>) ''add-page'' None
   \<and> delete_handler closed_env (demo_request\<lparr>b_slug := ''/about''\<rparr>) demo_db
       = (Inl PermissionDenied, demo_db)
   \<and> getPage (b_slug (demo_request\<lparr>b_slug := ''/''\<rparr>)) (pages demo_db)
       = Some (mk_page ''/'' ''home'' 0 0)
   \<and> descendantQuery (mk_page ''/'' ''home'' 0 0) 1 (pages demo_db) \<noteq> []
   \<and> getAncestors (mk_page ''/'' ''home'' 0 0) [] (pages demo_db) = Some []
   \<and> delete_handler demo_env (demo_request\<lparr>b_slug := ''/''\<rparr>) demo_db
       = (Inl HomePage, demo_db)"
proof -
  let ?about = "mk_page ''/about'' ''home/about'' 1 1"
  let ?home = "mk_page ''/'' ''home'' 0 0"
  have 1: "getPage (b_slug (demo_request\<lparr>b_slug := ''/about''\<rparr>)) (pages demo_db) = Some ?about"
    by code_simp
  have 2: "descendantQuery ?about 1 (pages demo_db) \<noteq> []"
    by code_simp
  have 3: "permissions demo_env (demo_request\<lparr>b_slug := ''/about''\<rparr>) ''add-page'' None"
    by (simp add: demo_env_def)
  have 4: "getAncestors ?about [] (pages demo_db) \<noteq> None"
    by code_simp
  have 5: "getAncestors ?about [] (pages demo_db) \<noteq> Some []"
    by code_simp
  have 6: "delete_handler demo_env (demo_request\<lparr>b_slug := ''/about''\<rparr>) demo_db
       = (Inl HasChildren, demo_db)"
    using delete_with_children_fails[OF 1 2, of demo_env] 3 4 5 by blast
  have 7: "\<not> permissions closed_env (demo_request\<lparr>b_slug := ''/about''\<rparr>) ''add-page'' None"
    by (simp add: closed_env_def)
  have 8: "delete_handler closed_env (demo_request\<lparr>b_slug := ''/about''\<rparr>) demo_db
       = (Inl PermissionDenied, demo_db)"
    using delete_with_children_fails[OF 1 2, of closed_env] 7 by blast
  have 9: "getPage (b_slug (demo_request\<lparr>b_slug := ''/''\<rparr>)) (pages demo_db) = Some ?home"
    by code_simp
  have 10: "descendantQuery ?home 1 (pages demo_db) \<noteq> []" by code_simp
  have 11: "getAncestors ?home [] (pages demo_db) = Some []" by code_simp
  have 12: "permissions demo_env (demo_request\<lparr>b_slug := ''/''\<rparr>) ''add-page'' None"
    by (simp add: demo_env_def)
  have 13: "delete_handler demo_env (demo_request\<lparr>b_slug := ''/''\<rparr>) demo_db
       = (Inl HomePage, demo_db)"
    using delete_with_children_fails[OF 9 10, of demo_env] 11 12 by blast
  show ?thesis by (intro conjI) (fact 1 2 3 4 5 6 7 8 9 10 11 13)+
qed


subsection \<open>Descendants\<close>

lemma distinct_map_nth:
  assumes "distinct (map f xs)" and "i < length xs" and "j < length xs" and "f (xs ! i) = f (xs ! j)"
  shows "i = j"
  using nth_eq_iff_index_eq[of "map f xs" i j] assms by simp

lemma nest_invariant:
  assumes d: "distinct (map path ps)" and ne: "\<forall>p\<in>set ps. path p \<noteq> []"
  shows "k \<le> length ps \<Longrightarrow>
      nodes (nest_upto ps k) = ps
    \<and> (\<forall>p j. pagesByPath (nest_upto ps k) p = Some j \<longleftrightarrow> j < k \<and> path (ps ! j) = p)
    \<and> children (nest_upto ps k) = filter (\<lambda>i. \<not> has_parent_before ps i) [0..<k]
    \<and> (\<forall>j. kids (nest_upto ps k) j
            = filter (\<lambda>i. j < i \<and> path (ps ! j) = parentPath (path (ps ! i))) [0..<k])"
proof (induction k)
  case 0
  show ?case by (simp add: nest_upto_0)
next
  case (Suc k)
  then have k: "k < length ps" by simp
  let ?g = "nest_upto ps k"
  let ?x = "ps ! k"
  from Suc have ih_nodes: "nodes ?g = ps"
    and ih_map: "\<And>p j. pagesByPath ?g p = Some j \<longleftrightarrow> j < k \<and> path (ps ! j) = p"
    and ih_top: "children ?g = filter (\<lambda>i. \<not> has_parent_before ps i) [0..<k]"
    and ih_kids: "\<And>j. kids ?g j = filter (\<lambda>i. j < i \<and> path (ps ! j) = parentPath (path (ps ! i))) [0..<k]"
    by simp_all
  have own: "parentPath (path ?x) \<noteq> path ?x"
    using ne k by (intro parentPath_neq) simp
  have uniq: "\<And>j. j < Suc k \<Longrightarrow> path (ps ! j) = path ?x \<Longrightarrow> j = k"
    using distinct_map_nth[OF d, of _ k] k by simp
  have uniq2: "\<And>j j'. j < k \<Longrightarrow> j' < k \<Longrightarrow> path (ps ! j) = path (ps ! j') \<Longrightarrow> j = j'"
    using distinct_map_nth[OF d] k by simp
  let ?g1 = "?g\<lparr>kids := (kids ?g)(k := []), pagesByPath := (pagesByPath ?g)(path ?x \<mapsto> k)\<rparr>"
  have look: "pagesByPath ?g1 (parentPath (path ?x)) = pagesByPath ?g (parentPath (path ?x))"
    using own by simp
  have kk: "kids ?g k = []" using ih_kids[of k] by (simp add: filter_empty_conv)
  have step: "nest_upto ps (Suc k) =
      (case pagesByPath ?g (parentPath (path ?x)) of
         Some j \<Rightarrow> ?g1\<lparr>kids := (kids ?g1)(j := kids ?g1 j @ [k])\<rparr>
       | None \<Rightarrow> ?g1\<lparr>children := children ?g1 @ [k]\<rparr>)"
    using look by (simp add: nest_upto_Suc[OF k] place_def Let_def)
  have map': "\<And>p j. pagesByPath (nest_upto ps (Suc k)) p = Some j \<longleftrightarrow> j < Suc k \<and> path (ps ! j) = p"
  proof -
    fix p j
    have "pagesByPath (nest_upto ps (Suc k)) p = pagesByPath ?g1 p"
      by (simp add: step split: option.splits)
    also have "\<dots> = Some j \<longleftrightarrow> j < Suc k \<and> path (ps ! j) = p"
    proof (cases "p = path ?x")
      case True
      then show ?thesis using uniq[of j] by auto
    next
      case False
      then show ?thesis using ih_map[of p j] by (auto simp add: less_Suc_eq)
    qed
    finally show "pagesByPath (nest_upto ps (Suc k)) p = Some j \<longleftrightarrow> j < Suc k \<and> path (ps ! j) = p" .
  qed
  show ?case
  proof (cases "pagesByPath ?g (parentPath (path ?x))")
    case None
    then have nopar: "\<not> has_parent_before ps k"
      using ih_map[of "parentPath (path ?x)"] by (auto simp add: has_parent_before_def)
    have g': "nest_upto ps (Suc k) = ?g1\<lparr>children := children ?g1 @ [k]\<rparr>"
      using step None by simp
    have top': "children (nest_upto ps (Suc k)) = filter (\<lambda>i. \<not> has_parent_before ps i) [0..<Suc k]"
      using g' ih_top nopar by simp
    have kids': "\<And>j. kids (nest_upto ps (Suc k)) j
            = filter (\<lambda>i. j < i \<and> path (ps ! j) = parentPath (path (ps ! i))) [0..<Suc k]"
    proof -
      fix j
      have "\<not> (j < k \<and> path (ps ! j) = parentPath (path ?x))"
        using nopar by (auto simp add: has_parent_before_def)
      then show "kids (nest_upto ps (Suc k)) j
            = filter (\<lambda>i. j < i \<and> path (ps ! j) = parentPath (path (ps ! i))) [0..<Suc k]"
        using g' ih_kids[of j] kk by (cases "j = k") simp_all
    qed
    from g' ih_nodes map' top' kids' show ?thesis by simp
  next
    case (Some j0)
    then have j0: "j0 < k" "path (ps ! j0) = parentPath (path ?x)"
      using ih_map[of "parentPath (path ?x)" j0] by simp_all
    then have par: "has_parent_before ps k" by (auto simp add: has_parent_before_def)
    have g': "nest_upto ps (Suc k) = ?g1\<lparr>kids := (kids ?g1)(j0 := kids ?g1 j0 @ [k])\<rparr>"
      using step Some by simp
    have top': "children (nest_upto ps (Suc k)) = filter (\<lambda>i. \<not> has_parent_before ps i) [0..<Suc k]"
      using g' ih_top par by simp
    have kids': "\<And>j. kids (nest_upto ps (Suc k)) j
            = filter (\<lambda>i. j < i \<and> path (ps ! j) = parentPath (path (ps ! i))) [0..<Suc k]"
    proof -
      fix j
      show "kids (nest_upto ps (Suc k)) j
            = filter (\<lambda>i. j < i \<and> path (ps ! j) = parentPath (path (ps ! i))) [0..<Suc k]"
      proof (cases "j = j0")
        case True
        then show ?thesis using g' ih_kids[of j0] j0 by simp
      next
        case False
        have "\<not> (j < k \<and> path (ps ! j) = parentPath (path ?x))"
          using False j0 uniq2[of j j0] by auto
        then show ?thesis using g' ih_kids[of j] kk False by (cases "j = k") simp_all
      qed
    qed
    from g' ih_nodes map' top' kids' show ?thesis by simp
  qed
qed

lemma nest_result:
  assumes "distinct (map path ps)" and "\<forall>p\<in>set ps. path p \<noteq> []"
  shows "nodes (nest_upto ps (length ps)) = ps"
    and "children (nest_upto ps (length ps)) = filter (\<lambda>i. \<not> has_parent_before ps i) [0..<length ps]"
    and "kids (nest_upto ps (length ps)) j
           = filter (\<lambda>i. j < i \<and> path (ps ! j) = parentPath (path (ps ! i))) [0..<length ps]"
  using nest_invariant[OF assms, of "length ps"] by simp_all

lemma count_parentPath:
  assumes "CHR ''/'' \<in> set p"
  shows "count_list p CHR ''/'' = count_list (parentPath p) CHR ''/'' + 1"
proof -
  from parentPath_decomp[OF assms] obtain rest where
    r: "p = parentPath p @ CHR ''/'' # rest" "CHR ''/'' \<notin> set rest" by blast
  have "count_list p CHR ''/'' = count_list (parentPath p @ CHR ''/'' # rest) CHR ''/''"
    using r(1) by simp
  also have "\<dots> = count_list (parentPath p) CHR ''/'' + 1"
    using r(2) by (simp add: count_list_0_iff)
  finally show ?thesis .
qed

lemma descendantQuery_sorted:
  "sorted (map (\<lambda>p. (level p, rank p)) (descendantQuery pg d store))"
  by (simp add: descendantQuery_def)

lemma descendantQuery_distinct:
  assumes "distinct (map path store)"
  shows "distinct (map path (descendantQuery pg d store))"
proof -
  let ?F = "filter (\<lambda>p. prefix (path pg @ ''/'') (path p) \<and> level pg < level p
                        \<and> level p \<le> js_plus (level pg) d) store"
  have "distinct (map path ?F)" using assms by (rule distinct_map_filter)
  then show ?thesis by (simp add: descendantQuery_def distinct_map)
qed

lemma reach_bound:
  assumes "reach g i" and "set (children g) \<subseteq> {..<n}" and "\<And>j. set (kids g j) \<subseteq> {..<n}"
  shows "i < n"
  using assms by (induction rule: reach.induct) auto

text \<open>A JavaScript sum of integers is exact below \<open>2 ^ 53\<close>.\<close>

lemma bit_length_le: "n < 2 ^ k \<Longrightarrow> bit_length n \<le> k"
proof (induction k arbitrary: n)
  case 0
  then show ?case by (simp add: bit_length.simps)
next
  case (Suc k)
  show ?case
  proof (cases "n = 0")
    case True
    then show ?thesis by (simp add: bit_length.simps)
  next
    case False
    from Suc.prems have "n div 2 < 2 ^ k" by simp
    from Suc.IH[OF this] False show ?thesis by (subst bit_length.simps) simp
  qed
qed

lemma to_double_safe: "safe_integer n \<Longrightarrow> to_double n = n"
proof -
  assume "safe_integer n"
  then have "nat \<bar>n\<bar> < 2 ^ 53" by (simp add: safe_integer_def nat_less_iff)
  from bit_length_le[OF this] show ?thesis by (simp add: to_double_def Let_def)
qed

lemma js_plus_safe: "safe_integer (a + b) \<Longrightarrow> js_plus a b = a + b"
  by (simp add: js_plus_def to_double_safe)


text \<open>
  C5. Take a store whose paths are unique. For a page whose path is not a property
  name that every object inherits, \<open>getDescendants\<close> returns, and its objects are
  exactly the stored pages whose path starts with the path of the page and a slash
  and whose level is in \<open>(level, level + depth]\<close> (the sum is a JavaScript sum, exact
  below \<open>2 ^ 53\<close>), each once, in the order of level, then rank. Every one of them
  is reached from the returned array, and the returned array and every \<open>children\<close>
  array list their objects in that same order. When the levels follow the paths, an
  object is in the \<open>children\<close> of another exactly when its path is the path of the
  other, a slash and one segment, and it is in the returned array exactly when no
  object of the result is related to it in this way.

  For a page whose path is an inherited property name, such as \<open>constructor\<close>, the
  lookup \<open>pagesByPath[parentPath]\<close> of a child of the page finds the inherited
  property: \<open>getDescendants\<close> throws a TypeError instead of returning the child in
  the top-level array, as it does on the site \<open>inherited_pages\<close>.
\<close>

theorem getDescendants_nested:
  fixes pg :: page and root :: string and depth :: "int option" and store :: "page list" and c :: int
  defines "d \<equiv> (case depth of None \<Rightarrow> 1 | Some d \<Rightarrow> d)"
  assumes dist: "distinct (map path store)"
  shows "(path pg \<notin> set object_prototype_names \<longrightarrow>
      (\<exists>g. getDescendants pg root depth store = Inr g
        \<and> set (nodes g) = set_url root `
            {p \<in> set store. prefix (path pg @ ''/'') (path p) \<and> level pg < level p
                              \<and> level p \<le> js_plus (level pg) d}
        \<and> (safe_integer (level pg + d) \<longrightarrow> js_plus (level pg) d = level pg + d)
        \<and> distinct (map path (nodes g))
        \<and> sorted (map (\<lambda>p. (level p, rank p)) (nodes g))
        \<and> (\<forall>i. reach g i \<longleftrightarrow> i < length (nodes g))
        \<and> sorted (children g) \<and> (\<forall>j. sorted (kids g j))
        \<and> (levels_by_depth c store \<longrightarrow>
             (\<forall>i<length (nodes g). \<forall>j<length (nodes g).
                 i \<in> set (kids g j)
                   \<longleftrightarrow> (\<exists>seg. path (nodes g ! i) = path (nodes g ! j) @ CHR ''/'' # seg
                              \<and> CHR ''/'' \<notin> set seg))
           \<and> (\<forall>i<length (nodes g).
                 i \<in> set (children g)
                   \<longleftrightarrow> \<not> (\<exists>j<length (nodes g). \<exists>seg.
                              path (nodes g ! i) = path (nodes g ! j) @ CHR ''/'' # seg
                              \<and> CHR ''/'' \<notin> set seg)))))
    \<and> (path pg \<in> set object_prototype_names
          \<and> (\<exists>p\<in>set store. level pg < level p \<and> level p \<le> js_plus (level pg) d
                \<and> (\<exists>seg. path p = path pg @ CHR ''/'' # seg \<and> CHR ''/'' \<notin> set seg))
        \<longrightarrow> getDescendants pg root depth store = Inl TypeError)
    \<and> getDescendants (inherited_pages ! 0) [] None inherited_pages = Inl TypeError"
proof -
  let ?R = "descendantQuery pg d store"
  let ?ps = "map (set_url root) ?R"
  let ?n = "length ?R"
  let ?g = "nest_upto ?ps ?n"
  let ?child = "\<lambda>i j. \<exists>seg. path (?ps ! i) = path (?ps ! j) @ CHR ''/'' # seg \<and> CHR ''/'' \<notin> set seg"
  have dps: "distinct (map path ?ps)"
    using descendantQuery_distinct[OF dist, of pg d] by (simp add: comp_def)
  have pre: "\<And>p. p \<in> set ?ps \<Longrightarrow> prefix (path pg @ ''/'') (path p)"
    by (auto simp add: descendantQuery_set)
  have ne: "\<forall>p\<in>set ?ps. path p \<noteq> []"
  proof
    fix p assume "p \<in> set ?ps"
    from pre[OF this] show "path p \<noteq> []" by (auto simp add: prefix_def)
  qed
  have slash: "\<And>i. i < ?n \<Longrightarrow> CHR ''/'' \<in> set (path (?ps ! i))"
  proof -
    fix i assume "i < ?n"
    then have "?ps ! i \<in> set ?ps" by (intro nth_mem) simp
    from pre[OF this] show "CHR ''/'' \<in> set (path (?ps ! i))" by (auto simp add: prefix_def)
  qed
  have seg: "\<And>i j. i < ?n \<Longrightarrow> path (?ps ! j) = parentPath (path (?ps ! i)) \<longleftrightarrow> ?child i j"
    using parentPath_segment[OF slash] by blast
  note nr = nest_result[OF dps ne]
  have nodes: "nodes ?g = ?ps" using nr(1) by simp
  have len: "length (nodes ?g) = ?n" using nodes by simp
  have top: "children ?g = filter (\<lambda>i. \<not> has_parent_before ?ps i) [0..<?n]"
    using nr(2) by simp
  have kid: "\<And>j. kids ?g j = filter (\<lambda>i. j < i \<and> path (?ps ! j) = parentPath (path (?ps ! i))) [0..<?n]"
    using nr(3) by simp
  have A: "set (nodes ?g) = set_url root `
            {p \<in> set store. prefix (path pg @ ''/'') (path p) \<and> level pg < level p
                              \<and> level p \<le> js_plus (level pg) d}"
    by (simp add: nodes descendantQuery_set)
  have A': "safe_integer (level pg + d) \<longrightarrow> js_plus (level pg) d = level pg + d"
    by (simp add: js_plus_safe)
  have B: "distinct (map path (nodes ?g))" using dps nodes by simp
  have C: "sorted (map (\<lambda>p. (level p, rank p)) (nodes ?g))"
    using descendantQuery_sorted[of pg d store] by (simp add: nodes comp_def)
  have D: "\<forall>i. reach ?g i \<longleftrightarrow> i < length (nodes ?g)"
  proof (intro allI iffI)
    fix i assume "reach ?g i"
    then have "i < ?n" by (rule reach_bound) (auto simp add: top kid)
    then show "i < length (nodes ?g)" by (simp add: nodes)
  next
    fix i assume "i < length (nodes ?g)"
    then have "i < ?n" by (simp add: nodes)
    then show "reach ?g i"
    proof (induction i rule: less_induct)
      case (less i)
      show ?case
      proof (cases "has_parent_before ?ps i")
        case False
        with less.prems have "i \<in> set (children ?g)" by (simp add: top)
        then show ?thesis by (rule reach.top)
      next
        case True
        then obtain j where j: "j < i" "path (?ps ! j) = parentPath (path (?ps ! i))"
          by (auto simp add: has_parent_before_def)
        with less.prems have "i \<in> set (kids ?g j)" by (simp add: kid)
        moreover have "reach ?g j" using less.IH[OF j(1)] j(1) less.prems by simp
        ultimately show ?thesis by (rule reach.kid[rotated])
      qed
    qed
  qed
  have E: "sorted (children ?g)" unfolding top by (rule sorted_wrt_filter) simp
  have F: "\<forall>j. sorted (kids ?g j)" unfolding kid by (intro allI sorted_wrt_filter) simp
  have G: "levels_by_depth c store \<longrightarrow>
             (\<forall>i<length (nodes ?g). \<forall>j<length (nodes ?g).
                 i \<in> set (kids ?g j)
                   \<longleftrightarrow> (\<exists>seg. path (nodes ?g ! i) = path (nodes ?g ! j) @ CHR ''/'' # seg
                              \<and> CHR ''/'' \<notin> set seg))
           \<and> (\<forall>i<length (nodes ?g).
                 i \<in> set (children ?g)
                   \<longleftrightarrow> \<not> (\<exists>j<length (nodes ?g). \<exists>seg.
                              path (nodes ?g ! i) = path (nodes ?g ! j) @ CHR ''/'' # seg
                              \<and> CHR ''/'' \<notin> set seg))"
  proof
    assume inv: "levels_by_depth c store"
    have lv: "\<And>i. i < ?n \<Longrightarrow> level (?ps ! i) = c + int (count_list (path (?ps ! i)) CHR ''/'')"
    proof -
      fix i assume i: "i < ?n"
      then have "?R ! i \<in> set store"
        using descendantQuery_set[of pg d store] nth_mem[of i ?R] by auto
      with inv have "level (?R ! i) = c + int (count_list (path (?R ! i)) CHR ''/'')"
        by (simp add: levels_by_depth_def list_all_iff)
      with i show "level (?ps ! i) = c + int (count_list (path (?ps ! i)) CHR ''/'')" by simp
    qed
    have before: "\<And>i j. i < ?n \<Longrightarrow> j < ?n \<Longrightarrow> path (?ps ! j) = parentPath (path (?ps ! i)) \<Longrightarrow> j < i"
    proof (rule ccontr)
      fix i j assume i: "i < ?n" and j: "j < ?n"
        and par: "path (?ps ! j) = parentPath (path (?ps ! i))" and "\<not> j < i"
      then have ij: "i \<le> j" by simp
      from count_parentPath[OF slash[OF i]] par lv[OF i] lv[OF j]
      have lt: "level (?ps ! j) < level (?ps ! i)" by simp
      have "sorted (map (\<lambda>p. (level p, rank p)) ?ps)" using C nodes by simp
      with ij j have "(level (?ps ! i), rank (?ps ! i)) \<le> (level (?ps ! j), rank (?ps ! j))"
        using sorted_nth_mono[of "map (\<lambda>p. (level p, rank p)) ?ps" i j] i by simp
      with lt show False by simp
    qed
    have 1: "\<forall>i<?n. \<forall>j<?n. i \<in> set (kids ?g j) \<longleftrightarrow> ?child i j"
    proof (intro allI impI)
      fix i j assume i: "i < ?n" and j: "j < ?n"
      have "i \<in> set (kids ?g j) \<longleftrightarrow> path (?ps ! j) = parentPath (path (?ps ! i))"
        unfolding kid using before[OF i j] i by auto
      with seg[OF i] show "i \<in> set (kids ?g j) \<longleftrightarrow> ?child i j" by simp
    qed
    have 2: "\<forall>i<?n. i \<in> set (children ?g) \<longleftrightarrow> \<not> (\<exists>j<?n. ?child i j)"
    proof (intro allI impI)
      fix i assume i: "i < ?n"
      have "has_parent_before ?ps i \<longleftrightarrow> (\<exists>j<?n. path (?ps ! j) = parentPath (path (?ps ! i)))"
      proof
        assume "has_parent_before ?ps i"
        then obtain j where j: "j < i" "path (?ps ! j) = parentPath (path (?ps ! i))"
          unfolding has_parent_before_def by blast
        from j(1) i have "j < ?n" by (rule order.strict_trans)
        with j(2) show "\<exists>j<?n. path (?ps ! j) = parentPath (path (?ps ! i))" by blast
      next
        assume "\<exists>j<?n. path (?ps ! j) = parentPath (path (?ps ! i))"
        then obtain j where j: "j < ?n" "path (?ps ! j) = parentPath (path (?ps ! i))" by blast
        from before[OF i j] j(2) show "has_parent_before ?ps i"
          unfolding has_parent_before_def by blast
      qed
      also have "\<dots> \<longleftrightarrow> (\<exists>j<?n. ?child i j)" using seg[OF i] by simp
      finally have "has_parent_before ?ps i \<longleftrightarrow> (\<exists>j<?n. ?child i j)" .
      with i show "i \<in> set (children ?g) \<longleftrightarrow> \<not> (\<exists>j<?n. ?child i j)"
        unfolding top by simp
    qed
    from 1 2 show "(\<forall>i<length (nodes ?g). \<forall>j<length (nodes ?g).
                 i \<in> set (kids ?g j)
                   \<longleftrightarrow> (\<exists>seg. path (nodes ?g ! i) = path (nodes ?g ! j) @ CHR ''/'' # seg
                              \<and> CHR ''/'' \<notin> set seg))
           \<and> (\<forall>i<length (nodes ?g).
                 i \<in> set (children ?g)
                   \<longleftrightarrow> \<not> (\<exists>j<length (nodes ?g). \<exists>seg.
                              path (nodes ?g ! i) = path (nodes ?g ! j) @ CHR ''/'' # seg
                              \<and> CHR ''/'' \<notin> set seg))"
      unfolding nodes by simp
  qed
  have pos: "path pg \<notin> set object_prototype_names \<longrightarrow>
      (\<exists>g. getDescendants pg root depth store = Inr g
        \<and> set (nodes g) = set_url root `
            {p \<in> set store. prefix (path pg @ ''/'') (path p) \<and> level pg < level p
                              \<and> level p \<le> js_plus (level pg) d}
        \<and> (safe_integer (level pg + d) \<longrightarrow> js_plus (level pg) d = level pg + d)
        \<and> distinct (map path (nodes g))
        \<and> sorted (map (\<lambda>p. (level p, rank p)) (nodes g))
        \<and> (\<forall>i. reach g i \<longleftrightarrow> i < length (nodes g))
        \<and> sorted (children g) \<and> (\<forall>j. sorted (kids g j))
        \<and> (levels_by_depth c store \<longrightarrow>
             (\<forall>i<length (nodes g). \<forall>j<length (nodes g).
                 i \<in> set (kids g j)
                   \<longleftrightarrow> (\<exists>seg. path (nodes g ! i) = path (nodes g ! j) @ CHR ''/'' # seg
                              \<and> CHR ''/'' \<notin> set seg))
           \<and> (\<forall>i<length (nodes g).
                 i \<in> set (children g)
                   \<longleftrightarrow> \<not> (\<exists>j<length (nodes g). \<exists>seg.
                              path (nodes g ! i) = path (nodes g ! j) @ CHR ''/'' # seg
                              \<and> CHR ''/'' \<notin> set seg))))"
  proof
    assume "path pg \<notin> set object_prototype_names"
    from getDescendants_no_throw[OF this, of root depth store]
    have g: "getDescendants pg root depth store = Inr ?g" by (simp add: d_def)
    show "\<exists>g. getDescendants pg root depth store = Inr g
        \<and> set (nodes g) = set_url root `
            {p \<in> set store. prefix (path pg @ ''/'') (path p) \<and> level pg < level p
                              \<and> level p \<le> js_plus (level pg) d}
        \<and> (safe_integer (level pg + d) \<longrightarrow> js_plus (level pg) d = level pg + d)
        \<and> distinct (map path (nodes g))
        \<and> sorted (map (\<lambda>p. (level p, rank p)) (nodes g))
        \<and> (\<forall>i. reach g i \<longleftrightarrow> i < length (nodes g))
        \<and> sorted (children g) \<and> (\<forall>j. sorted (kids g j))
        \<and> (levels_by_depth c store \<longrightarrow>
             (\<forall>i<length (nodes g). \<forall>j<length (nodes g).
                 i \<in> set (kids g j)
                   \<longleftrightarrow> (\<exists>seg. path (nodes g ! i) = path (nodes g ! j) @ CHR ''/'' # seg
                              \<and> CHR ''/'' \<notin> set seg))
           \<and> (\<forall>i<length (nodes g).
                 i \<in> set (children g)
                   \<longleftrightarrow> \<not> (\<exists>j<length (nodes g). \<exists>seg.
                              path (nodes g ! i) = path (nodes g ! j) @ CHR ''/'' # seg
                              \<and> CHR ''/'' \<notin> set seg)))"
      by (rule exI[of _ ?g]) (intro conjI, (fact g A A' B C D E F G)+)
  qed
  have neg: "path pg \<in> set object_prototype_names
          \<and> (\<exists>p\<in>set store. level pg < level p \<and> level p \<le> js_plus (level pg) d
                \<and> (\<exists>seg. path p = path pg @ CHR ''/'' # seg \<and> CHR ''/'' \<notin> set seg))
        \<longrightarrow> getDescendants pg root depth store = Inl TypeError"
  proof
    assume h: "path pg \<in> set object_prototype_names
          \<and> (\<exists>p\<in>set store. level pg < level p \<and> level p \<le> js_plus (level pg) d
                \<and> (\<exists>seg. path p = path pg @ CHR ''/'' # seg \<and> CHR ''/'' \<notin> set seg))"
    then obtain p seg where p: "p \<in> set store" "level pg < level p" "level p \<le> js_plus (level pg) d"
      "path p = path pg @ CHR ''/'' # seg" "CHR ''/'' \<notin> set seg" by blast
    then have "p \<in> set ?R" by (simp add: descendantQuery_set)
    moreover have "parentPath (path p) = path pg" using p(4,5) by (simp add: parentPath_append)
    ultimately show "getDescendants pg root depth store = Inl TypeError"
      using h getDescendants_throws_iff[of pg root depth store TypeError] by (auto simp add: d_def)
  qed
  have "case getDescendants (inherited_pages ! 0) [] None inherited_pages of
          Inl err \<Rightarrow> err = TypeError | Inr g \<Rightarrow> False"
    by code_simp
  then have ex: "getDescendants (inherited_pages ! 0) [] None inherited_pages = Inl TypeError"
    by (simp split: sum.splits)
  from pos neg ex show ?thesis by (intro conjI)
qed


lemma returned_value:
  "\<exists>g. r = Inr g \<and> P g \<Longrightarrow> \<not> isl r \<and> P (projr r)"
  by auto

theorem getDescendants_nested_witness:
  "distinct (map path demo_pages)
   \<and> path (demo_pages ! 0) \<notin> set object_prototype_names
   \<and> levels_by_depth 0 demo_pages
   \<and> \<not> isl (getDescendants (demo_pages ! 0) [] (Some 2) demo_pages)
   \<and> nodes (projr (getDescendants (demo_pages ! 0) [] (Some 2) demo_pages))
       = [(mk_page ''/about'' ''home/about'' 1 1)\<lparr>url := Some ''/about''\<rparr>,
          (mk_page ''/contact'' ''home/contact'' 1 2)\<lparr>url := Some ''/contact''\<rparr>,
          (mk_page ''/about/team'' ''home/about/team'' 2 1)\<lparr>url := Some ''/about/team''\<rparr>]
   \<and> children (projr (getDescendants (demo_pages ! 0) [] (Some 2) demo_pages)) = [0, 1]
   \<and> kids (projr (getDescendants (demo_pages ! 0) [] (Some 2) demo_pages)) 0 = [2]
   \<and> 2 \<in> set (kids (projr (getDescendants (demo_pages ! 0) [] (Some 2) demo_pages)) 0)
   \<and> 1 \<in> set (children (projr (getDescendants (demo_pages ! 0) [] (Some 2) demo_pages)))
   \<and> reach (projr (getDescendants (demo_pages ! 0) [] (Some 2) demo_pages)) 2
   \<and> distinct (map path inherited_pages)
   \<and> path (inherited_pages ! 0) \<in> set object_prototype_names
   \<and> inherited_pages ! 1 \<in> set inherited_pages
   \<and> path (inherited_pages ! 1) = path (inherited_pages ! 0) @ CHR ''/'' # ''a''
   \<and> getDescendants (inherited_pages ! 0) [] (Some 1) inherited_pages = Inl TypeError"
proof -
  let ?r = "getDescendants (demo_pages ! 0) [] (Some 2) demo_pages"
  let ?g = "projr ?r"
  have 1: "distinct (map path demo_pages)" by code_simp
  have 2: "path (demo_pages ! 0) \<notin> set object_prototype_names" by code_simp
  have 3: "levels_by_depth 0 demo_pages" by code_simp
  have 4: "nodes ?g
       = [(mk_page ''/about'' ''home/about'' 1 1)\<lparr>url := Some ''/about''\<rparr>,
          (mk_page ''/contact'' ''home/contact'' 1 2)\<lparr>url := Some ''/contact''\<rparr>,
          (mk_page ''/about/team'' ''home/about/team'' 2 1)\<lparr>url := Some ''/about/team''\<rparr>]"
    by code_simp
  have 5: "children ?g = [0, 1]" by code_simp
  have 6: "kids ?g 0 = [2]" by code_simp
  have len: "length (nodes ?g) = 3" unfolding 4 by simp
  have sl1: "CHR ''/'' \<in> set (path (nodes ?g ! 1))" unfolding 4 by code_simp
  have sl2: "CHR ''/'' \<in> set (path (nodes ?g ! 2))" unfolding 4 by code_simp
  have par: "path (nodes ?g ! 0) = parentPath (path (nodes ?g ! 2))" unfolding 4 by code_simp
  have n0: "path (nodes ?g ! 0) \<noteq> parentPath (path (nodes ?g ! 1))" unfolding 4 by code_simp
  have n1: "path (nodes ?g ! 1) \<noteq> parentPath (path (nodes ?g ! 1))" unfolding 4 by code_simp
  have n2: "path (nodes ?g ! 2) \<noteq> parentPath (path (nodes ?g ! 1))" unfolding 4 by code_simp
  have child: "\<exists>seg. path (nodes ?g ! 2) = path (nodes ?g ! 0) @ CHR ''/'' # seg \<and> CHR ''/'' \<notin> set seg"
    using parentPath_segment[OF sl2, of "path (nodes ?g ! 0)"] par by simp
  have nopar: "\<not> (\<exists>j<length (nodes ?g). \<exists>seg.
      path (nodes ?g ! 1) = path (nodes ?g ! j) @ CHR ''/'' # seg \<and> CHR ''/'' \<notin> set seg)"
  proof
    assume "\<exists>j<length (nodes ?g). \<exists>seg.
      path (nodes ?g ! 1) = path (nodes ?g ! j) @ CHR ''/'' # seg \<and> CHR ''/'' \<notin> set seg"
    then obtain j where j: "j < length (nodes ?g)"
      and s: "\<exists>seg. path (nodes ?g ! 1) = path (nodes ?g ! j) @ CHR ''/'' # seg \<and> CHR ''/'' \<notin> set seg"
      by blast
    from s have p: "path (nodes ?g ! j) = parentPath (path (nodes ?g ! 1))"
      using parentPath_segment[OF sl1, of "path (nodes ?g ! j)"] by simp
    from j len have "j = 0 \<or> j = 1 \<or> j = 2" by arith
    with p n0 n1 n2 show False by blast
  qed
  note th = getDescendants_nested[OF 1, of "demo_pages ! 0" "[]" "Some 2" 0,
      THEN conjunct1, rule_format, OF 2]
  note body = returned_value[OF th]
  note 7 = body[THEN conjunct1]
  note r = body[THEN conjunct2, THEN conjunct2, THEN conjunct2, THEN conjunct2, THEN conjunct2,
      THEN conjunct1, rule_format]
  note k = body[THEN conjunct2, THEN conjunct2, THEN conjunct2, THEN conjunct2, THEN conjunct2,
      THEN conjunct2, THEN conjunct2, THEN conjunct2, THEN mp, OF 3]
  note k1 = k[THEN conjunct1, rule_format, of 2 0]
  note k2 = k[THEN conjunct2, rule_format, of 1]
  have l2: "2 < length (nodes ?g)" and l1: "1 < length (nodes ?g)" and l0: "0 < length (nodes ?g)"
    using len by simp_all
  from k1[OF l2 l0] child have 8: "2 \<in> set (kids ?g 0)" by (rule iffD2)
  from k2[OF l1] nopar have 9: "1 \<in> set (children ?g)" by (rule iffD2)
  from r[of 2] l2 have 10: "reach ?g 2" by (rule iffD2)
  have 11: "distinct (map path inherited_pages)" by code_simp
  have 12: "path (inherited_pages ! 0) \<in> set object_prototype_names" by code_simp
  have 13: "inherited_pages ! 1 \<in> set inherited_pages" by code_simp
  have 14: "path (inherited_pages ! 1) = path (inherited_pages ! 0) @ CHR ''/'' # ''a''"
    by code_simp
  have lv: "level (inherited_pages ! 0) < level (inherited_pages ! 1)
      \<and> level (inherited_pages ! 1) \<le> js_plus (level (inherited_pages ! 0)) 1"
    by code_simp
  have ns: "CHR ''/'' \<notin> set ''a''" by simp
  note tn = getDescendants_nested[OF 11, of "inherited_pages ! 0" "[]" "Some 1" 0,
      THEN conjunct2, THEN conjunct1, rule_format]
  have 15: "getDescendants (inherited_pages ! 0) [] (Some 1) inherited_pages = Inl TypeError"
  proof (rule tn, intro conjI)
    show "path (inherited_pages ! 0) \<in> set object_prototype_names" by (rule 12)
    show "\<exists>p\<in>set inherited_pages.
       level (inherited_pages ! 0) < level p
       \<and> level p \<le> js_plus (level (inherited_pages ! 0)) (case Some 1 of None \<Rightarrow> 1 | Some d \<Rightarrow> d)
       \<and> (\<exists>seg. path p = path (inherited_pages ! 0) @ CHR ''/'' # seg \<and> CHR ''/'' \<notin> set seg)"
      using 13 14 lv ns by (intro bexI[of _ "inherited_pages ! 1"] conjI exI[of _ "''a''"]) simp_all
  qed
  show ?thesis by (intro conjI) (fact 1 2 3 7 4 5 6 8 9 10 11 12 13 14 15)+
qed


subsection \<open>Rank allocation\<close>

lemma rank_step_safe:
  "safe_integer (rank x + 1) \<Longrightarrow> rank_step x m - 1 = max (m - 1) (rank x)"
  by (simp add: rank_step_def js_plus_safe)

lemma fold_rank_step:
  "\<forall>x\<in>set xs. safe_integer (rank x + 1)
     \<Longrightarrow> fold rank_step xs m = 1 + Max (insert (m - 1) (rank ` set xs))"
proof (induction xs arbitrary: m)
  case Nil
  show ?case by simp
next
  case (Cons x xs)
  from Cons.prems have sx: "safe_integer (rank x + 1)" and rest: "\<forall>x\<in>set xs. safe_integer (rank x + 1)"
    by simp_all
  have "fold rank_step (x # xs) m = 1 + Max (insert (max (m - 1) (rank x)) (rank ` set xs))"
    using Cons.IH[OF rest, of "rank_step x m"] rank_step_safe[OF sx, of m] by simp
  also have "Max (insert (max (m - 1) (rank x)) (rank ` set xs))
      = Max (insert (m - 1) (insert (rank x) (rank ` set xs)))"
  proof (cases "set xs = {}")
    case True
    then show ?thesis by (simp add: max.commute)
  next
    case False
    then show ?thesis by (simp add: max.assoc)
  qed
  finally show ?case by simp
qed

text \<open>No object of the list has its parent in the list: the loop nests nothing.\<close>

lemma nest_flat:
  assumes "distinct (map path ps)" and "\<forall>p\<in>set ps. path p \<noteq> []"
    and "\<forall>p\<in>set ps. \<forall>q\<in>set ps. path q \<noteq> parentPath (path p)"
  shows "top_pages (nest_upto ps (length ps)) = ps"
proof -
  have "\<And>i. i < length ps \<Longrightarrow> \<not> has_parent_before ps i"
    using assms(3) by (auto simp add: has_parent_before_def)
  then have "filter (\<lambda>i. \<not> has_parent_before ps i) [0..<length ps] = [0..<length ps]"
    by (simp add: filter_id_conv)
  with nest_result(1,2)[OF assms(1,2)] show ?thesis
    by (simp add: top_pages_def map_nth)
qed

lemma child_of_path:
  assumes "child_of parent q"
  obtains seg where "path q = path parent @ CHR ''/'' # seg" "CHR ''/'' \<notin> set seg"
    "level q = level parent + 1"
proof -
  from assms obtain seg where seg: "path q = path parent @ CHR ''/'' # seg"
    by (auto simp add: child_of_def prefix_def)
  with assms have "CHR ''/'' \<notin> set seg" by (simp add: child_of_def)
  with seg assms that show thesis by (simp add: child_of_def)
qed

lemma sort_key_Nil_iff: "sort_key f xs = [] \<longleftrightarrow> xs = []"
  by (metis length_sort length_0_conv)

lemma distinct_map_sort_key: "distinct (map f (sort_key k xs)) = distinct (map f xs)"
  by (simp add: distinct_map)

lemma query_of_children:
  assumes "descendantQuery parent 1 base = []" and "\<forall>q\<in>set added. child_of parent q"
    and "safe_integer (level parent + 1)"
  shows "descendantQuery parent 1 (base @ added) = sort_key (\<lambda>p. (level p, rank p)) added"
proof -
  let ?Q = "\<lambda>p. prefix (path parent @ ''/'') (path p) \<and> level parent < level p
                \<and> level p \<le> js_plus (level parent) 1"
  from assms(1) have "filter ?Q base = []" by (simp add: descendantQuery_def sort_key_Nil_iff)
  moreover have "filter ?Q added = added"
    using assms(2) js_plus_safe[OF assms(3)] by (auto simp add: filter_id_conv child_of_def)
  ultimately show ?thesis by (simp add: descendantQuery_def)
qed

lemma getNextRank_returns:
  assumes "path parent \<notin> set object_prototype_names"
  shows "getNextRank parent store
       = Inr (fold rank_step
                (top_pages (nest_upto (map (set_url []) (descendantQuery parent 1 store))
                              (length (descendantQuery parent 1 store)))) 1)"
  using getDescendants_no_throw[OF assms, of "[]" "Some 1" store]
  by (simp add: getNextRank_def)

lemma nextRank_of_children:
  assumes "descendantQuery parent 1 base = []" and "\<forall>q\<in>set added. child_of parent q"
    and "distinct (map path added)"
    and "path parent \<notin> set object_prototype_names"
    and "safe_integer (level parent + 1)"
    and "\<forall>q\<in>set added. safe_integer (rank q + 1)"
  shows "getNextRank parent (base @ added) = Inr (1 + Max (insert 0 (rank ` set added)))"
proof -
  let ?R = "sort_key (\<lambda>p. (level p, rank p)) added"
  let ?ps = "map (set_url []) ?R"
  have q: "descendantQuery parent 1 (base @ added) = ?R"
    by (rule query_of_children[OF assms(1,2,5)])
  have d: "distinct (map path ?ps)" using assms(3) by (simp add: comp_def distinct_map_sort_key)
  have ch: "\<And>p. p \<in> set ?ps \<Longrightarrow> \<exists>seg. path p = path parent @ CHR ''/'' # seg \<and> CHR ''/'' \<notin> set seg"
  proof -
    fix p assume "p \<in> set ?ps"
    then obtain q where q: "q \<in> set added" "p = set_url [] q" by auto
    with assms(2) have "child_of parent q" by simp
    then obtain seg where "path q = path parent @ CHR ''/'' # seg" "CHR ''/'' \<notin> set seg"
      by (rule child_of_path)
    with q show "\<exists>seg. path p = path parent @ CHR ''/'' # seg \<and> CHR ''/'' \<notin> set seg" by simp
  qed
  have ne: "\<forall>p\<in>set ?ps. path p \<noteq> []" using ch by fastforce
  have np: "\<forall>p\<in>set ?ps. \<forall>q\<in>set ?ps. path q \<noteq> parentPath (path p)"
  proof (intro ballI)
    fix p q assume p: "p \<in> set ?ps" and q: "q \<in> set ?ps"
    from ch[OF p] obtain seg where "path p = path parent @ CHR ''/'' # seg" "CHR ''/'' \<notin> set seg"
      by blast
    then have "parentPath (path p) = path parent" by (simp add: parentPath_append)
    moreover from ch[OF q] have "path q \<noteq> path parent" by auto
    ultimately show "path q \<noteq> parentPath (path p)" by simp
  qed
  have "top_pages (nest_upto ?ps (length ?ps)) = ?ps" using d ne np by (rule nest_flat)
  then have top: "top_pages (nest_upto ?ps (length ?R)) = ?ps" by simp
  have safe: "\<forall>x\<in>set ?ps. safe_integer (rank x + 1)" using assms(6) by auto
  have "getNextRank parent (base @ added) = Inr (fold rank_step ?ps 1)"
    using getNextRank_returns[OF assms(4), of "base @ added"] top by (simp add: q)
  also have "fold rank_step ?ps 1 = 1 + Max (insert 0 (rank ` set added))"
    using fold_rank_step[OF safe, of 1] by (simp add: image_image)
  finally show ?thesis .
qed

lemma addSanitized_plain:
  assumes "addSanitizedTypeData req pg t = Inr pg'" and "plain_type t"
  shows "slug pg' = slug pg \<and> path pg' = path pg \<and> level pg' = level pg \<and> rank pg' = rank pg
       \<and> ptype pg' = ptype pg \<and> title pg' = title pg"
proof (cases "sanitize t")
  case None
  with assms(1) show ?thesis by (simp add: addSanitizedTypeData_def)
next
  case (Some f)
  with assms(2) have "name t \<notin> set field_names" by (simp add: plain_type_def)
  then have n: "name t \<noteq> ''slug''" "name t \<noteq> ''path''" "name t \<noteq> ''title''"
    "name t \<noteq> ''type''" "name t \<noteq> ''url''"
    by (auto simp add: field_names_def)
  from assms(1) Some obtain v where "pg' = setProperty (name t) v pg"
    by (auto simp add: addSanitizedTypeData_def split: option.splits)
  with n show ?thesis by (simp add: setProperty_def)
qed

lemma determineType_registered:
  "determineType e req = Some t \<Longrightarrow> t \<in> set (types e)"
  by (auto simp add: determineType_def getType_def find_Some_iff split: option.splits)

lemma determineType_plain:
  "list_all plain_type (types e) \<Longrightarrow> determineType e req = Some t \<Longrightarrow> plain_type t"
  using determineType_registered[of e req t] by (simp add: list_all_iff)

lemma putPage_own_slug: "putPage (slug p) p st = Inr st' \<Longrightarrow> getPage (slug p) st' = Some p"
  by (auto simp add: putPage_def getPage_def extract_Some_iff extract_None_iff
      find_append_skip split: option.splits if_splits)

lemma new_handler_inserts:
  assumes "new_handler e req d = (Inr pg, d')" and "list_all plain_type (types e)"
  obtains parent r where "getPage (b_parent req) (pages d) = Some parent"
    "permissions e req ''add-page'' (Some parent)"
    "getNextRank parent (pages d) = Inr r"
    "path pg = path parent @ CHR ''/'' # segmentOf e req"
    "slug pg = addSlashIfNeeded (b_parent req) @ segmentOf e req"
    "level pg = js_plus (level parent) 1"
    "rank pg = r"
    "putPage (slug pg) pg (pages d) = Inr (pages d')"
    "redirects d' = redirects d"
proof -
  from assms(1) obtain parent r t pg1 where
    p: "getPage (b_parent req) (pages d) = Some parent"
    and perm: "permissions e req ''add-page'' (Some parent)"
    and nr: "getNextRank parent (pages d) = Inr r"
    and t: "determineType e req = Some t"
    and s: "addSanitizedTypeData req pg1 t = Inr pg"
    and pg1: "path pg1 = path parent @ CHR ''/'' # segmentOf e req"
      "slug pg1 = addSlashIfNeeded (b_parent req) @ segmentOf e req"
      "level pg1 = js_plus (level parent) 1" "rank pg1 = r"
    and put: "putPage (slug pg) pg (pages d) = Inr (pages d')"
    and red: "redirects d' = redirects d"
    by (auto simp add: new_handler_def segmentOf_def Let_def
        split: option.splits if_splits sum.splits)
  from addSanitized_plain[OF s determineType_plain[OF assms(2) t]] pg1 p perm nr put red that
  show thesis by simp
qed

lemma putPage_fresh:
  assumes "putPage s p st = Inr st'" and "s \<notin> slug ` set st"
  shows "st' = st @ [p] \<and> path p \<notin> path ` set st"
proof -
  from assms(2) have "List.extract (\<lambda>q. slug q = s) st = None"
    by (auto simp add: extract_None_iff)
  with assms(1) show ?thesis by (auto simp add: putPage_def clashes_def split: if_splits)
qed

lemma getPage_append: "getPage s st = Some p \<Longrightarrow> getPage s (st @ ys) = Some p"
  by (induction st) (auto simp add: getPage_def)


lemma insert_all_ranks:
  assumes "insert_all e reqs dk = (map Inr pgs, d')"
    and "pages dk = base @ added"
    and "getPage ps base = Some parent"
    and "descendantQuery parent 1 base = []"
    and "\<forall>req\<in>set reqs. b_parent req = ps \<and> CHR ''/'' \<notin> set (segmentOf e req)"
    and "\<forall>q\<in>set added. child_of parent q"
    and "distinct (map path added)"
    and "map rank added = map int [1..<Suc (length added)]"
    and "\<forall>pg\<in>set pgs. slug pg \<notin> slug ` set (base @ added)"
    and "distinct (map slug pgs)"
    and "list_all plain_type (types e)"
    and "path parent \<notin> set object_prototype_names"
    and "safe_integer (level parent + 1)"
    and "safe_integer (int (length added + length reqs) + 1)"
  shows "map rank pgs = map int [Suc (length added)..<Suc (length added + length pgs)]"
  using assms
proof (induction reqs arbitrary: dk added pgs)
  case Nil
  then show ?case by simp
next
  case (Cons req reqs)
  obtain r d1 where r: "new_handler e req dk = (r, d1)" by (cases "new_handler e req dk") auto
  obtain rs d2 where rs: "insert_all e reqs d1 = (rs, d2)" by (cases "insert_all e reqs d1") auto
  from Cons.prems(1) r rs have eq: "r # rs = map Inr pgs" "d2 = d'" by simp_all
  then obtain pg pgs' where pgs: "pgs = pg # pgs'" "r = Inr pg" "rs = map Inr pgs'"
    by (cases pgs) auto
  from r pgs have nh: "new_handler e req dk = (Inr pg, d1)" by simp
  from Cons.prems(5) have bp: "b_parent req = ps" and seg: "CHR ''/'' \<notin> set (segmentOf e req)"
    by simp_all
  have gp: "getPage ps (pages dk) = Some parent"
    using Cons.prems(2,3) by (simp add: getPage_append)
  from nh Cons.prems(11) obtain parent' rk where
    p': "getPage (b_parent req) (pages dk) = Some parent'"
    and nr: "getNextRank parent' (pages dk) = Inr rk"
    and path: "path pg = path parent' @ CHR ''/'' # segmentOf e req"
    and lev: "level pg = js_plus (level parent') 1"
    and rk: "rank pg = rk"
    and put: "putPage (slug pg) pg (pages dk) = Inr (pages d1)"
    by (rule new_handler_inserts)
  from p' gp bp have par: "parent' = parent" by simp
  have fresh: "slug pg \<notin> slug ` set (pages dk)"
    using Cons.prems(2,9) pgs by simp
  from putPage_fresh[OF put fresh] have d1: "pages d1 = base @ (added @ [pg])"
    and newpath: "path pg \<notin> path ` set (pages dk)"
    using Cons.prems(2) by simp_all
  have ch: "child_of parent pg"
    using path lev seg par js_plus_safe[OF Cons.prems(13)] by (simp add: child_of_def)
  have ranks: "rank ` set added = int ` {1..<Suc (length added)}"
  proof -
    from Cons.prems(8) have "set (map rank added) = set (map int [1..<Suc (length added)])"
      by (rule arg_cong)
    then show ?thesis by (simp only: set_map set_upt)
  qed
  have bound: "int (length added) + 2 < 2 ^ 53"
    using Cons.prems(14) by (simp add: safe_integer_def)
  have safe: "\<forall>q\<in>set added. safe_integer (rank q + 1)"
  proof
    fix q assume "q \<in> set added"
    then have "rank q \<in> int ` {1..<Suc (length added)}" using ranks by blast
    then have "1 \<le> rank q \<and> rank q \<le> int (length added)" by auto
    with bound show "safe_integer (rank q + 1)" by (simp add: safe_integer_def)
  qed
  have rank_pg: "rank pg = int (Suc (length added))"
  proof -
    have "Inr (rank pg) = getNextRank parent (pages dk)" using nr rk par by simp
    also have "\<dots> = Inr (1 + Max (insert 0 (rank ` set added)))"
      using Cons.prems(2) nextRank_of_children[OF Cons.prems(4,6,7,12,13) safe] by simp
    finally have "rank pg = 1 + Max (insert 0 (rank ` set added))" by simp
    also have "Max (insert 0 (rank ` set added)) = int (length added)"
      unfolding ranks
    proof (rule Max_eqI)
      show "finite (insert 0 (int ` {1..<Suc (length added)}))" by simp
      fix y assume "y \<in> insert 0 (int ` {1..<Suc (length added)})"
      then show "y \<le> int (length added)" by auto
    next
      show "int (length added) \<in> insert 0 (int ` {1..<Suc (length added)})"
      proof (cases "length added = 0")
        case True then show ?thesis by simp
      next
        case False
        then have "length added \<in> {1..<Suc (length added)}" by (cases added) simp_all
        then show ?thesis by blast
      qed
    qed
    finally show ?thesis by simp
  qed
  have ih: "map rank pgs' = map int [Suc (length (added @ [pg]))..<Suc (length (added @ [pg]) + length pgs')]"
  proof (rule Cons.IH[of d1 pgs' "added @ [pg]"])
    show "insert_all e reqs d1 = (map Inr pgs', d')" using rs pgs eq by simp
    show "pages d1 = base @ added @ [pg]" using d1 by simp
    show "getPage ps base = Some parent" by (rule Cons.prems(3))
    show "descendantQuery parent 1 base = []" by (rule Cons.prems(4))
    show "\<forall>req\<in>set reqs. b_parent req = ps \<and> CHR ''/'' \<notin> set (segmentOf e req)"
      using Cons.prems(5) by simp
    show "\<forall>q\<in>set (added @ [pg]). child_of parent q" using Cons.prems(6) ch by simp
    show "distinct (map path (added @ [pg]))"
      using Cons.prems(7) newpath Cons.prems(2) by auto
    show "map rank (added @ [pg]) = map int [1..<Suc (length (added @ [pg]))]"
      using Cons.prems(8) rank_pg by simp
    show "\<forall>pg'\<in>set pgs'. slug pg' \<notin> slug ` set (base @ added @ [pg])"
    proof
      fix pg' assume in': "pg' \<in> set pgs'"
      with Cons.prems(9) pgs have a: "slug pg' \<notin> slug ` set (base @ added)" by simp
      from Cons.prems(10) pgs have "slug pg \<notin> slug ` set pgs'" by simp
      with in' have "slug pg' \<noteq> slug pg" by (metis imageI)
      with a show "slug pg' \<notin> slug ` set (base @ added @ [pg])" by simp
    qed
    show "distinct (map slug pgs')" using Cons.prems(10) pgs by simp
    show "list_all plain_type (types e)" by (rule Cons.prems(11))
    show "path parent \<notin> set object_prototype_names" by (rule Cons.prems(12))
    show "safe_integer (level parent + 1)" by (rule Cons.prems(13))
    show "safe_integer (int (length (added @ [pg]) + length reqs) + 1)"
      using Cons.prems(14) by simp
  qed
  have "Suc (length added) < Suc (length added + length pgs)" using pgs by simp
  then have "[Suc (length added)..<Suc (length added + length pgs)]
      = Suc (length added) # [Suc (Suc (length added))..<Suc (length added + length pgs)]"
    by (rule upt_conv_Cons)
  moreover have "Suc (length added + length pgs) = Suc (length (added @ [pg]) + length pgs')"
    using pgs by simp
  moreover have "Suc (Suc (length added)) = Suc (length (added @ [pg]))" by simp
  ultimately have "map int [Suc (length added)..<Suc (length added + length pgs)]
      = int (Suc (length added)) # map int [Suc (length (added @ [pg]))..<Suc (length (added @ [pg]) + length pgs')]"
    by (simp only: list.map)
  with ih rank_pg pgs show ?case by (simp only: list.map)
qed

lemma depth1_children:
  assumes "distinct (map path store)" and "levels_by_depth c store"
    and "safe_integer (level parent + 1)"
  shows "top_pages (nest_upto (map (set_url root) (descendantQuery parent 1 store))
                      (length (descendantQuery parent 1 store)))
       = map (set_url root) (descendantQuery parent 1 store)"
proof -
  let ?R = "descendantQuery parent 1 store"
  let ?ps = "map (set_url root) ?R"
  have d: "distinct (map path ?ps)"
    using descendantQuery_distinct[OF assms(1), of parent 1] by (simp add: comp_def)
  have mem: "\<And>p. p \<in> set ?ps \<Longrightarrow> prefix (path parent @ ''/'') (path p)
      \<and> level p = level parent + 1 \<and> level p = c + int (count_list (path p) CHR ''/'')"
  proof -
    fix p assume "p \<in> set ?ps"
    then obtain q where q: "q \<in> set ?R" "p = set_url root q" by auto
    then have "q \<in> set store" "prefix (path parent @ ''/'') (path q)" "level q = level parent + 1"
      using js_plus_safe[OF assms(3)] by (auto simp add: descendantQuery_set)
    moreover from this(1) assms(2) have "level q = c + int (count_list (path q) CHR ''/'')"
      by (simp add: levels_by_depth_def list_all_iff)
    ultimately show "prefix (path parent @ ''/'') (path p)
      \<and> level p = level parent + 1 \<and> level p = c + int (count_list (path p) CHR ''/'')"
      using q by simp
  qed
  have ne: "\<forall>p\<in>set ?ps. path p \<noteq> []"
  proof
    fix p assume "p \<in> set ?ps"
    from mem[OF this] show "path p \<noteq> []" by (auto simp add: prefix_def)
  qed
  have np: "\<forall>p\<in>set ?ps. \<forall>q\<in>set ?ps. path q \<noteq> parentPath (path p)"
  proof (intro ballI notI)
    fix p q assume p: "p \<in> set ?ps" and q: "q \<in> set ?ps" and eq: "path q = parentPath (path p)"
    from mem[OF p] have "CHR ''/'' \<in> set (path p)" by (auto simp add: prefix_def)
    from count_parentPath[OF this] eq
    have "count_list (path p) CHR ''/'' = count_list (path q) CHR ''/'' + 1" by simp
    with mem[OF p] mem[OF q] show False by linarith
  qed
  from d ne np have "top_pages (nest_upto ?ps (length ?ps)) = ?ps" by (rule nest_flat)
  then show ?thesis by simp
qed

lemma insert_all_length: "insert_all e reqs d = (rs, d') \<Longrightarrow> length rs = length reqs"
  by (induction reqs arbitrary: d rs) (auto split: prod.splits)

text \<open>
  C8, as the claim states it, fails: under a home page whose only child has the rank
  -5, the next rank is 1, not 1 plus the greatest rank of the children, which is -4;
  an insert there stores the new page with the rank 1.
\<close>

theorem rank_not_below_one_counterexample:
  "filter (\<lambda>p. prefix (path (pages sunk_db ! 0) @ ''/'') (path p)
                 \<and> level p = level (pages sunk_db ! 0) + 1) (pages sunk_db)
     = [mk_page ''/old'' ''home/old'' 1 (- 5)]
   \<and> 1 + rank (mk_page ''/old'' ''home/old'' 1 (- 5)) = - 4
   \<and> getPage ''/'' (pages sunk_db) = Some (pages sunk_db ! 0)
   \<and> getNextRank (pages sunk_db ! 0) (pages sunk_db) = Inr 1
   \<and> new_handler demo_env demo_request sunk_db
       = (Inr ((mk_page ''/x'' ''home/x'' 1 1)\<lparr>title := ''x''\<rparr>),
          sunk_db\<lparr>pages := pages sunk_db @ [(mk_page ''/x'' ''home/x'' 1 1)\<lparr>title := ''x''\<rparr>]\<rparr>)"
  by code_simp

text \<open>
  C8, amended. The statements are made for ranks and levels that JavaScript numbers
  hold exactly (\<open>safe_integer\<close>), for a parent whose path is not a property name
  that every object inherits, and for page types that are not named like a field of
  the page. On a store with unique paths whose levels follow the paths, the next
  rank is 1 plus the greatest of 0 and the ranks of the immediate children of the
  parent, the stored pages under the parent's path at the next level: it is 1 when
  there is none, and 1 plus the greatest rank when some rank is not negative. A
  successful insert stores the new page, at the next level and under the parent's
  path, with the rank that \<open>getNextRank\<close> returned. Consequently, when N inserts
  under one parent without children all succeed, with segments free of slashes and
  slugs that are new and distinct, the pages get the ranks 1 to N in the order of
  insertion.
\<close>

theorem rank_allocation:
  "(distinct (map path store) \<and> levels_by_depth c store
      \<and> path parent \<notin> set object_prototype_names \<and> safe_integer (level parent + 1)
      \<and> list_all (\<lambda>p. safe_integer (rank p + 1)) store \<longrightarrow>
        getNextRank parent store
          = Inr (1 + Max (insert 0 (rank ` {p \<in> set store. prefix (path parent @ ''/'') (path p)
                                                         \<and> level p = level parent + 1})))
        \<and> ({p \<in> set store. prefix (path parent @ ''/'') (path p) \<and> level p = level parent + 1} = {}
              \<longrightarrow> getNextRank parent store = Inr 1)
        \<and> ((\<exists>p\<in>set store. prefix (path parent @ ''/'') (path p) \<and> level p = level parent + 1
                               \<and> 0 \<le> rank p)
              \<longrightarrow> getNextRank parent store
                    = Inr (1 + Max (rank ` {p \<in> set store. prefix (path parent @ ''/'') (path p)
                                                          \<and> level p = level parent + 1}))))
   \<and> (new_handler e req d = (Inr pg, d') \<and> list_all plain_type (types e) \<longrightarrow>
        (\<exists>par. getPage (b_parent req) (pages d) = Some par
            \<and> getNextRank par (pages d) = Inr (rank pg)
            \<and> level pg = js_plus (level par) 1
            \<and> path pg = path par @ CHR ''/'' # segmentOf e req
            \<and> getPage (slug pg) (pages d') = Some pg))
   \<and> (insert_all e reqs d = (map Inr pgs, d')
        \<and> (\<forall>req\<in>set reqs. b_parent req = ps \<and> CHR ''/'' \<notin> set (segmentOf e req))
        \<and> getPage ps (pages d) = Some par
        \<and> descendantQuery par 1 (pages d) = []
        \<and> distinct (map slug pgs)
        \<and> (\<forall>pg\<in>set pgs. slug pg \<notin> slug ` set (pages d))
        \<and> list_all plain_type (types e)
        \<and> path par \<notin> set object_prototype_names
        \<and> safe_integer (level par + 1)
        \<and> safe_integer (int (length reqs) + 1)
      \<longrightarrow> length pgs = length reqs \<and> map rank pgs = map int [1..<Suc (length reqs)])"
proof -
  let ?K = "{p \<in> set store. prefix (path parent @ ''/'') (path p) \<and> level p = level parent + 1}"
  have A: "distinct (map path store) \<and> levels_by_depth c store
      \<and> path parent \<notin> set object_prototype_names \<and> safe_integer (level parent + 1)
      \<and> list_all (\<lambda>p. safe_integer (rank p + 1)) store \<longrightarrow>
        getNextRank parent store = Inr (1 + Max (insert 0 (rank ` ?K)))
        \<and> (?K = {} \<longrightarrow> getNextRank parent store = Inr 1)
        \<and> ((\<exists>p\<in>set store. prefix (path parent @ ''/'') (path p) \<and> level p = level parent + 1
                               \<and> 0 \<le> rank p)
              \<longrightarrow> getNextRank parent store = Inr (1 + Max (rank ` ?K)))"
  proof
    assume h: "distinct (map path store) \<and> levels_by_depth c store
      \<and> path parent \<notin> set object_prototype_names \<and> safe_integer (level parent + 1)
      \<and> list_all (\<lambda>p. safe_integer (rank p + 1)) store"
    then have np: "path parent \<notin> set object_prototype_names" and sl: "safe_integer (level parent + 1)"
      by simp_all
    let ?R = "descendantQuery parent 1 store"
    have top: "top_pages (nest_upto (map (set_url []) ?R) (length ?R)) = map (set_url []) ?R"
      using h depth1_children[of store c parent "[]"] by blast
    have setR: "set ?R = ?K"
      using js_plus_safe[OF sl] by (auto simp add: descendantQuery_set)
    have safe: "\<forall>x\<in>set (map (set_url []) ?R). safe_integer (rank x + 1)"
      using h setR by (auto simp add: list_all_iff)
    have "getNextRank parent store = Inr (fold rank_step (map (set_url []) ?R) 1)"
      using getNextRank_returns[OF np, of store] top by simp
    also have "fold rank_step (map (set_url []) ?R) 1 = 1 + Max (insert 0 (rank ` ?K))"
      using fold_rank_step[OF safe, of 1] setR by (simp add: image_image)
    finally have f: "getNextRank parent store = Inr (1 + Max (insert 0 (rank ` ?K)))" .
    have fin: "finite (rank ` ?K)" by simp
    have e: "?K = {} \<longrightarrow> getNextRank parent store = Inr 1"
    proof
      assume "?K = {}"
      then have "insert 0 (rank ` ?K) = {0}" by (simp only: image_empty)
      with f show "getNextRank parent store = Inr 1" by (simp only: Max_singleton) simp
    qed
    have m: "(\<exists>p\<in>set store. prefix (path parent @ ''/'') (path p) \<and> level p = level parent + 1
                               \<and> 0 \<le> rank p)
              \<longrightarrow> getNextRank parent store = Inr (1 + Max (rank ` ?K))"
    proof
      assume "\<exists>p\<in>set store. prefix (path parent @ ''/'') (path p) \<and> level p = level parent + 1
                               \<and> 0 \<le> rank p"
      then obtain p where p: "p \<in> ?K" "0 \<le> rank p" by blast
      then have "rank p \<in> rank ` ?K" by blast
      with fin have "rank p \<le> Max (rank ` ?K)" by (rule Max_ge)
      with p(2) have "0 \<le> Max (rank ` ?K)" by (rule order_trans)
      moreover have "rank ` ?K \<noteq> {}" using p by blast
      ultimately have "Max (insert 0 (rank ` ?K)) = Max (rank ` ?K)"
        using fin by (simp add: max_def)
      with f show "getNextRank parent store = Inr (1 + Max (rank ` ?K))" by simp
    qed
    from f e m show "getNextRank parent store = Inr (1 + Max (insert 0 (rank ` ?K)))
        \<and> (?K = {} \<longrightarrow> getNextRank parent store = Inr 1)
        \<and> ((\<exists>p\<in>set store. prefix (path parent @ ''/'') (path p) \<and> level p = level parent + 1
                               \<and> 0 \<le> rank p)
              \<longrightarrow> getNextRank parent store = Inr (1 + Max (rank ` ?K)))"
      by (intro conjI)
  qed
  have B: "new_handler e req d = (Inr pg, d') \<and> list_all plain_type (types e) \<longrightarrow>
        (\<exists>par. getPage (b_parent req) (pages d) = Some par
            \<and> getNextRank par (pages d) = Inr (rank pg)
            \<and> level pg = js_plus (level par) 1
            \<and> path pg = path par @ CHR ''/'' # segmentOf e req
            \<and> getPage (slug pg) (pages d') = Some pg)"
  proof
    assume h: "new_handler e req d = (Inr pg, d') \<and> list_all plain_type (types e)"
    then obtain par r where
      p: "getPage (b_parent req) (pages d) = Some par"
      and nr: "getNextRank par (pages d) = Inr r"
      and path: "path pg = path par @ CHR ''/'' # segmentOf e req"
      and lev: "level pg = js_plus (level par) 1"
      and rk: "rank pg = r"
      and put: "putPage (slug pg) pg (pages d) = Inr (pages d')"
      using new_handler_inserts[of e req d pg d'] by metis
    from putPage_own_slug[OF put] p nr path lev rk
    show "\<exists>par. getPage (b_parent req) (pages d) = Some par
            \<and> getNextRank par (pages d) = Inr (rank pg)
            \<and> level pg = js_plus (level par) 1
            \<and> path pg = path par @ CHR ''/'' # segmentOf e req
            \<and> getPage (slug pg) (pages d') = Some pg"
      by (intro exI[of _ par]) simp
  qed
  have C: "insert_all e reqs d = (map Inr pgs, d')
        \<and> (\<forall>req\<in>set reqs. b_parent req = ps \<and> CHR ''/'' \<notin> set (segmentOf e req))
        \<and> getPage ps (pages d) = Some par
        \<and> descendantQuery par 1 (pages d) = []
        \<and> distinct (map slug pgs)
        \<and> (\<forall>pg\<in>set pgs. slug pg \<notin> slug ` set (pages d))
        \<and> list_all plain_type (types e)
        \<and> path par \<notin> set object_prototype_names
        \<and> safe_integer (level par + 1)
        \<and> safe_integer (int (length reqs) + 1)
      \<longrightarrow> length pgs = length reqs \<and> map rank pgs = map int [1..<Suc (length reqs)]"
  proof
    assume h: "insert_all e reqs d = (map Inr pgs, d')
        \<and> (\<forall>req\<in>set reqs. b_parent req = ps \<and> CHR ''/'' \<notin> set (segmentOf e req))
        \<and> getPage ps (pages d) = Some par
        \<and> descendantQuery par 1 (pages d) = []
        \<and> distinct (map slug pgs)
        \<and> (\<forall>pg\<in>set pgs. slug pg \<notin> slug ` set (pages d))
        \<and> list_all plain_type (types e)
        \<and> path par \<notin> set object_prototype_names
        \<and> safe_integer (level par + 1)
        \<and> safe_integer (int (length reqs) + 1)"
    then have len: "length pgs = length reqs"
      using insert_all_length[of e reqs d "map Inr pgs" d'] by simp
    have "map rank pgs = map int [Suc (length ([]::page list))..<Suc (length ([]::page list) + length pgs)]"
    proof (rule insert_all_ranks[where dk = d and base = "pages d" and parent = par])
      show "insert_all e reqs d = (map Inr pgs, d')" using h by simp
      show "pages d = pages d @ []" by simp
      show "getPage ps (pages d) = Some par" using h by simp
      show "descendantQuery par 1 (pages d) = []" using h by simp
      show "\<forall>req\<in>set reqs. b_parent req = ps \<and> CHR ''/'' \<notin> set (segmentOf e req)" using h by simp
      show "\<forall>q\<in>set []. child_of par q" by simp
      show "distinct (map path [])" by simp
      show "map rank [] = map int [1..<Suc (length ([]::page list))]" by simp
      show "\<forall>pg\<in>set pgs. slug pg \<notin> slug ` set (pages d @ [])" using h by simp
      show "distinct (map slug pgs)" using h by simp
      show "list_all plain_type (types e)" using h by simp
      show "path par \<notin> set object_prototype_names" using h by simp
      show "safe_integer (level par + 1)" using h by simp
      show "safe_integer (int (length ([]::page list) + length reqs) + 1)" using h by simp
    qed
    with len show "length pgs = length reqs \<and> map rank pgs = map int [1..<Suc (length reqs)]"
      by simp
  qed
  from A B C show ?thesis by (intro conjI)
qed


theorem rank_allocation_witness:
  "distinct (map path demo_pages) \<and> levels_by_depth 0 demo_pages
   \<and> path (demo_pages ! 0) \<notin> set object_prototype_names
   \<and> safe_integer (level (demo_pages ! 0) + 1)
   \<and> list_all (\<lambda>p. safe_integer (rank p + 1)) demo_pages
   \<and> getNextRank (demo_pages ! 0) demo_pages = Inr 3
   \<and> list_all plain_type (types demo_env)
   \<and> new_handler demo_env demo_request demo_db
       = (Inr ((mk_page ''/x'' ''home/x'' 1 3)\<lparr>title := ''x''\<rparr>),
          demo_db\<lparr>pages := demo_pages @ [(mk_page ''/x'' ''home/x'' 1 3)\<lparr>title := ''x''\<rparr>]\<rparr>)
   \<and> getPage (b_parent demo_request) (pages demo_db) = Some (demo_pages ! 0)
   \<and> getNextRank (demo_pages ! 0) (pages demo_db)
       = Inr (rank ((mk_page ''/x'' ''home/x'' 1 3)\<lparr>title := ''x''\<rparr>))
   \<and> getPage ''/x'' (demo_pages @ [(mk_page ''/x'' ''home/x'' 1 3)\<lparr>title := ''x''\<rparr>])
       = Some ((mk_page ''/x'' ''home/x'' 1 3)\<lparr>title := ''x''\<rparr>)
   \<and> insert_all demo_env two_requests demo_db
       = (map Inr two_children, demo_db\<lparr>pages := demo_pages @ two_children\<rparr>)
   \<and> list_all (\<lambda>req. b_parent req = ''/contact'' \<and> CHR ''/'' \<notin> set (segmentOf demo_env req))
        two_requests
   \<and> getPage ''/contact'' (pages demo_db) = Some (demo_pages ! 2)
   \<and> descendantQuery (demo_pages ! 2) 1 (pages demo_db) = []
   \<and> path (demo_pages ! 2) \<notin> set object_prototype_names
   \<and> safe_integer (level (demo_pages ! 2) + 1)
   \<and> safe_integer (int (length two_requests) + 1)
   \<and> map rank two_children = [1, 2]"
proof -
  let ?x = "(mk_page ''/x'' ''home/x'' 1 3)\<lparr>title := ''x''\<rparr>"
  have 1: "distinct (map path demo_pages)" by code_simp
  have 2: "levels_by_depth 0 demo_pages" by code_simp
  have a1: "path (demo_pages ! 0) \<notin> set object_prototype_names" by code_simp
  have a2: "safe_integer (level (demo_pages ! 0) + 1)" by code_simp
  have a3: "list_all (\<lambda>p. safe_integer (rank p + 1)) demo_pages" by code_simp
  have 3: "insert_all demo_env two_requests demo_db
       = (map Inr two_children, demo_db\<lparr>pages := demo_pages @ two_children\<rparr>)"
    by code_simp
  have 4: "list_all (\<lambda>req. b_parent req = ''/contact'' \<and> CHR ''/'' \<notin> set (segmentOf demo_env req))
        two_requests"
    by code_simp
  have 5: "getPage ''/contact'' (pages demo_db) = Some (demo_pages ! 2)" by code_simp
  have 6: "descendantQuery (demo_pages ! 2) 1 (pages demo_db) = []" by code_simp
  have 7: "distinct (map slug two_children)" by code_simp
  have 8: "list_all (\<lambda>pg. slug pg \<notin> set (map slug (pages demo_db))) two_children" by code_simp
  have c1: "list_all plain_type (types demo_env)" by code_simp
  have c2: "path (demo_pages ! 2) \<notin> set object_prototype_names" by code_simp
  have c3: "safe_integer (level (demo_pages ! 2) + 1)" by code_simp
  have c4: "safe_integer (int (length two_requests) + 1)" by code_simp
  have 9: "rank ` {p \<in> set demo_pages. prefix (path (demo_pages ! 0) @ ''/'') (path p)
                                     \<and> level p = level (demo_pages ! 0) + 1} = {1, 2}"
  proof -
    have "map rank (filter (\<lambda>p. prefix (path (demo_pages ! 0) @ ''/'') (path p)
                                     \<and> level p = level (demo_pages ! 0) + 1) demo_pages) = [1, 2]"
      by code_simp
    then have "set (map rank (filter (\<lambda>p. prefix (path (demo_pages ! 0) @ ''/'') (path p)
                                     \<and> level p = level (demo_pages ! 0) + 1) demo_pages)) = {1, 2}"
      by simp
    then show ?thesis by (simp only: set_map set_filter)
  qed
  have b1: "new_handler demo_env demo_request demo_db
       = (Inr ?x, demo_db\<lparr>pages := demo_pages @ [?x]\<rparr>)"
    by code_simp
  have b2: "getPage (b_parent demo_request) (pages demo_db) = Some (demo_pages ! 0)" by code_simp
  have b3: "slug ?x = ''/x''" by code_simp
  have b4: "pages (demo_db\<lparr>pages := demo_pages @ [?x]\<rparr>) = demo_pages @ [?x]" by simp
  note th = rank_allocation[where store = demo_pages and c = 0 and parent = "demo_pages ! 0"
      and e = demo_env and req = demo_request and d = demo_db and pg = ?x
      and d' = "demo_db\<lparr>pages := demo_pages @ [?x]\<rparr>"]
  have hA: "distinct (map path demo_pages) \<and> levels_by_depth 0 demo_pages
      \<and> path (demo_pages ! 0) \<notin> set object_prototype_names
      \<and> safe_integer (level (demo_pages ! 0) + 1)
      \<and> list_all (\<lambda>p. safe_integer (rank p + 1)) demo_pages"
    by (intro conjI) (fact 1 2 a1 a2 a3)+
  from th[THEN conjunct1, THEN mp, OF hA, THEN conjunct1]
  have 10: "getNextRank (demo_pages ! 0) demo_pages = Inr 3" unfolding 9 by simp
  from th[THEN conjunct2, THEN conjunct1, THEN mp, OF conjI[OF b1 c1]]
  obtain par where par: "getPage (b_parent demo_request) (pages demo_db) = Some par"
    and nr: "getNextRank par (pages demo_db) = Inr (rank ?x)"
    and st: "getPage (slug ?x) (pages (demo_db\<lparr>pages := demo_pages @ [?x]\<rparr>)) = Some ?x"
    by blast
  from par b2 have "par = demo_pages ! 0" by simp
  with nr have 11: "getNextRank (demo_pages ! 0) (pages demo_db) = Inr (rank ?x)" by simp
  from st have 12: "getPage ''/x'' (demo_pages @ [?x]) = Some ?x" unfolding b3 b4 .
  from 4 have h4: "\<forall>req\<in>set two_requests. b_parent req = ''/contact'' \<and> CHR ''/'' \<notin> set (segmentOf demo_env req)"
    by (simp add: list_all_iff)
  from 8 have h8: "\<forall>pg\<in>set two_children. slug pg \<notin> slug ` set (pages demo_db)"
    by (simp add: list_all_iff)
  have hC: "insert_all demo_env two_requests demo_db
        = (map Inr two_children, demo_db\<lparr>pages := demo_pages @ two_children\<rparr>)
      \<and> (\<forall>req\<in>set two_requests. b_parent req = ''/contact'' \<and> CHR ''/'' \<notin> set (segmentOf demo_env req))
      \<and> getPage ''/contact'' (pages demo_db) = Some (demo_pages ! 2)
      \<and> descendantQuery (demo_pages ! 2) 1 (pages demo_db) = []
      \<and> distinct (map slug two_children)
      \<and> (\<forall>pg\<in>set two_children. slug pg \<notin> slug ` set (pages demo_db))
      \<and> list_all plain_type (types demo_env)
      \<and> path (demo_pages ! 2) \<notin> set object_prototype_names
      \<and> safe_integer (level (demo_pages ! 2) + 1)
      \<and> safe_integer (int (length two_requests) + 1)"
    by (intro conjI) (fact 3 h4 5 6 7 h8 c1 c2 c3 c4)+
  note thC = rank_allocation[where e = demo_env and d = demo_db and reqs = two_requests
      and pgs = two_children and d' = "demo_db\<lparr>pages := demo_pages @ two_children\<rparr>"
      and ps = "''/contact''" and par = "demo_pages ! 2",
      THEN conjunct2, THEN conjunct2]
  have "map rank two_children = map int [1..<Suc (length two_requests)]"
    using thC hC by blast
  then have 13: "map rank two_children = [1, 2]"
    by (simp add: two_requests_def upt_rec)
  show ?thesis by (intro conjI) (fact 1 2 a1 a2 a3 10 c1 b1 b2 11 12 3 4 5 6 c2 c3 c4 13)+
qed


end
